theory Spec2Isabelle
  imports Complex_Main "HOL-Library.Product_Lexorder" "HOL-Library.Multiset"
begin

section \<open>JavaScript values used by the engine\<close>

text \<open>
  The engine is the class \<open>GE\<close> of \<open>src/GEbrowser.js\<close>. Its numbers are JavaScript
  numbers, that is, IEEE 754 double-precision floats. The ones that index arrays and
  count things are non-negative integers, but \<open>x % 0\<close> and \<open>0 / 0\<close> are \<open>NaN\<close>, a product
  that is too large is \<open>Infinity\<close>, and both then flow through the arithmetic.
  A \<open>jsnum\<close> is such a number: \<open>Num n\<close>, \<open>NaN\<close> or \<open>Infinity\<close>. An array hole (read as
  \<open>undefined\<close>) behaves as \<open>NaN\<close> in every arithmetic use the engine makes of a codon,
  so a hole in a genome is represented by \<open>NaN\<close> as well.

  A thrown exception is a value: \<open>Throw TypeError\<close> for a property read on
  \<open>undefined\<close>/\<open>null\<close>, \<open>Throw RangeError\<close> for unbounded recursion (stack exhaustion).
  A loop that never exits has the value \<open>None\<close> of the enclosing \<open>option\<close>.
\<close>

datatype jsnum = Num nat | NaN | Infinity

datatype error = TypeError | RangeError

datatype 'a result = Throw error | Return 'a

subsection \<open>Rounding\<close>

text \<open>
  A double has 53 significant bits. An integer below \<open>2^53\<close> is a double; a larger one
  is a double when it is a multiple of \<open>2^k\<close>, where \<open>k\<close> is the number of its bits
  beyond 53. Addition, multiplication and division give the double nearest to the exact
  result, and of two doubles equally near the one whose last significant bit is \<open>0\<close>
  (round to nearest, ties to even). \<open>bit_length n\<close> is the number of bits of \<open>n\<close>,
  \<open>round_to k n\<close> is \<open>n\<close> rounded in that way to a multiple of \<open>2^k\<close>, and
  \<open>round_double n\<close> is \<open>n\<close> rounded to 53 significant bits.
\<close>

fun bit_length :: "nat \<Rightarrow> nat" where
  "bit_length n = (if n = 0 then 0 else Suc (bit_length (n div 2)))"

declare bit_length.simps [simp del]

definition round_to :: "nat \<Rightarrow> nat \<Rightarrow> nat" where
  "round_to k n =
     (let q = n div 2 ^ k; r = n mod 2 ^ k
      in if 2 * r < 2 ^ k \<or> (2 * r = 2 ^ k \<and> even q) then q * 2 ^ k else (q + 1) * 2 ^ k)"

definition round_double :: "nat \<Rightarrow> nat" where
  "round_double n = round_to (bit_length n - 53) n"

text \<open>
  The value of an operation whose exact result is the integer \<open>n\<close>. The largest double is
  \<open>(2^53 - 1) * 2^971\<close>; a result that rounds to \<open>2^1024\<close> (one of 1025 bits) or more
  is \<open>Infinity\<close>.
\<close>

definition to_double :: "nat \<Rightarrow> jsnum" where
  "to_double n = (if bit_length (round_double n) \<le> 1024 then Num (round_double n) else Infinity)"

subsection \<open>Operations\<close>

text \<open>
  \<open>a % b\<close> on these numbers. The remainder of two doubles is exact; \<open>a % Infinity\<close> is
  \<open>a\<close> and \<open>Infinity % b\<close> is \<open>NaN\<close>.
\<close>

fun jsmod :: "jsnum \<Rightarrow> jsnum \<Rightarrow> jsnum" where
  "jsmod (Num a) (Num b) = (if b = 0 then NaN else Num (a mod b))"
| "jsmod (Num a) Infinity = Num a"
| "jsmod _ _ = NaN"

text \<open>\<open>a + 1\<close>.\<close>

fun jsinc :: "jsnum \<Rightarrow> jsnum" where
  "jsinc (Num a) = to_double (a + 1)"
| "jsinc NaN = NaN"
| "jsinc Infinity = Infinity"

text \<open>\<open>a * b\<close> for an array length \<open>b\<close>. \<open>Infinity * 0\<close> is \<open>NaN\<close>.\<close>

fun jstimes :: "jsnum \<Rightarrow> nat \<Rightarrow> jsnum" where
  "jstimes (Num a) b = to_double (a * b)"
| "jstimes NaN b = NaN"
| "jstimes Infinity b = (if b = 0 then NaN else Infinity)"

text \<open>
  \<open>xs[i]\<close>: \<open>None\<close> is \<open>undefined\<close> (index out of range, \<open>NaN\<close> or \<open>Infinity\<close>).
\<close>

fun jsindex :: "'a list \<Rightarrow> jsnum \<Rightarrow> 'a option" where
  "jsindex xs (Num i) = (if i < length xs then Some (xs ! i) else None)"
| "jsindex xs NaN = None"
| "jsindex xs Infinity = None"

subsection \<open>Fractions\<close>

text \<open>
  A finite double in general is \<open>\<plusminus> m * 2^e\<close> for an integer \<open>m\<close> of at most 53 bits;
  \<open>Double s m e\<close> is that number, negative when \<open>s\<close> holds. \<open>0.25\<close> is
  \<open>Double False 1 (-2)\<close>, and \<open>0.3\<close> is the double \<open>5404319552844595 * 2^(-54)\<close>.
\<close>

datatype double = Double (negative: bool) (significand: nat) (exponent: int)

definition double_value :: "double \<Rightarrow> real" where
  "double_value d =
     (if negative d then - 1 else 1) * real (significand d) * 2 powr real_of_int (exponent d)"

text \<open>
  \<open>n * d\<close> for a non-negative integer \<open>n\<close>: the exact product is \<open>\<plusminus> (n * m) * 2^e\<close>, and
  it is rounded to 53 significant bits.
\<close>

definition jsmul :: "nat \<Rightarrow> double \<Rightarrow> double" where
  "jsmul n d = Double (negative d) (round_double (n * significand d)) (exponent d)"

text \<open>
  \<open>Math.floor(d)\<close>, as the integer that \<open>slice\<close> then takes for an index. (A product
  beyond the largest double is \<open>\<plusminus>Infinity\<close> in JavaScript and stays so under
  \<open>Math.floor\<close>; here it is an integer beyond \<open>2^1024\<close>, and \<open>slice\<close> sets both to the
  same end of the array.)
\<close>

definition math_floor :: "double \<Rightarrow> int" where
  "math_floor d =
     (let v = (if negative d then - int (significand d) else int (significand d))
      in if 0 \<le> exponent d then v * 2 ^ nat (exponent d) else v div 2 ^ nat (- exponent d))"

section \<open>Grammar\<close>

type_synonym symbol = string
type_synonym production = "symbol list"

text \<open>
  The parsed grammar object, as \<open>Object.entries\<close> lists it: one entry per nonterminal
  (the keys of an object are distinct), each with its array of productions.
\<close>

type_synonym rules = "(symbol \<times> production list) list"

subsection \<open>Least common multiple of the rule lengths\<close>

text \<open>
  \<^verbatim>\<open>const gcd = (a, b) => b == 0 ? a : gcd (b, a % b)\<close>
\<close>

fun gcd_js :: "nat \<Rightarrow> nat \<Rightarrow> nat" where
  "gcd_js a b = (if b = 0 then a else gcd_js b (a mod b))"

declare gcd_js.simps [simp del]

text \<open>
  \<^verbatim>\<open>const lcm = (a, b) =>  a / gcd (a, b) * b\<close>

  The second argument is always an array length. The remainders inside \<open>gcd\<close> are
  exact. \<open>gcd (a, b)\<close> divides \<open>a\<close>, so the exact quotient is the integer
  \<open>a div gcd (a, b)\<close>, except for \<open>0 / 0\<close>, which is \<open>NaN\<close>; the quotient and then the
  product are rounded to doubles. With \<open>NaN\<close> as first argument, \<open>gcd (NaN, 0)\<close> is
  \<open>NaN\<close> and the result is \<open>NaN\<close>; \<open>gcd (NaN, b)\<close> with \<open>b\<close> not zero calls
  \<open>gcd (b, NaN)\<close>, then \<open>gcd (NaN, NaN)\<close> again and again, since \<open>NaN == 0\<close> is false:
  the recursion has no end and the engine throws \<open>RangeError\<close>. \<open>Infinity\<close> as first
  argument goes the same ways: \<open>gcd (Infinity, 0)\<close> is \<open>Infinity\<close> and
  \<open>Infinity / Infinity\<close> is \<open>NaN\<close>; \<open>gcd (Infinity, b)\<close> calls \<open>gcd (b, NaN)\<close>, since
  \<open>Infinity % b\<close> is \<open>NaN\<close>.
\<close>

fun lcm_js :: "jsnum \<Rightarrow> nat \<Rightarrow> jsnum result" where
  "lcm_js (Num a) b =
     (if gcd_js a b = 0 then Return NaN
      else Return (jstimes (to_double (a div gcd_js a b)) b))"
| "lcm_js NaN b = (if b = 0 then Return NaN else Throw RangeError)"
| "lcm_js Infinity b = (if b = 0 then Return NaN else Throw RangeError)"

text \<open>
  \<^verbatim>\<open>const lcmAll = (ns) => ns .reduce (lcm, 1)\<close>, written with the accumulator as
  an argument.
\<close>

fun reduce_lcm :: "jsnum \<Rightarrow> nat list \<Rightarrow> jsnum result" where
  "reduce_lcm acc [] = Return acc"
| "reduce_lcm acc (n # ns) =
     (case lcm_js acc n of Throw e \<Rightarrow> Throw e | Return acc' \<Rightarrow> reduce_lcm acc' ns)"

definition lcmAll :: "nat list \<Rightarrow> jsnum result" where
  "lcmAll ns = reduce_lcm (Num 1) ns"

definition getGrammarLCM :: "rules \<Rightarrow> jsnum result" where
  "getGrammarLCM obj = lcmAll (map (\<lambda>(lhs, rhs). length rhs) obj)"

subsection \<open>Terminals, recursive nonterminals, the grammar record\<close>

text \<open>\<open>sym.startsWith("<") && sym.endsWith(">")\<close>\<close>

definition is_bracketed :: "symbol \<Rightarrow> bool" where
  "is_bracketed sy \<longleftrightarrow> sy \<noteq> [] \<and> hd sy = CHR ''<'' \<and> last sy = CHR ''>''"

text \<open>Every symbol of every production that is not bracketed, collected in a set.\<close>

definition getTerminals :: "rules \<Rightarrow> symbol set" where
  "getTerminals obj = set (filter (\<lambda>sy. \<not> is_bracketed sy) (concat (concat (map snd obj))))"

text \<open>The left-hand sides that occur in one of their own productions.\<close>

definition getRecursiveNTs :: "rules \<Rightarrow> symbol set" where
  "getRecursiveNTs obj =
     set (map fst (filter (\<lambda>(lhs, rhs). list_ex (\<lambda>prod. list_ex (\<lambda>sy. lhs = sy) prod) rhs) obj))"

record grammar =
  rules :: rules
  nonterminals :: "symbol set"
  terminals :: "symbol set"
  recursive_NTs :: "symbol set"
  start_rule :: symbol
  LCM_js :: jsnum

text \<open>
  \<open>loadGrammar\<close> takes the grammar text, cuts the start symbol out of it (from the
  first \<open><\<close> to the first \<open>>\<close>) and evaluates the text to the object. The model takes
  the two results of reading the text, the start symbol and the object, and builds the
  record as the source does. The only failure is the one of \<open>getGrammarLCM\<close>.
\<close>

definition loadGrammar :: "symbol \<Rightarrow> rules \<Rightarrow> grammar result" where
  "loadGrammar start_sym obj =
     (case getGrammarLCM obj of
        Throw e \<Rightarrow> Throw e
      | Return l \<Rightarrow> Return \<lparr>rules = obj, nonterminals = set (map fst obj),
                             terminals = getTerminals obj, recursive_NTs = getRecursiveNTs obj,
                             start_rule = start_sym, LCM_js = l\<rparr>)"

section \<open>The engine object\<close>

text \<open>
  The fields of a \<open>GE\<close> object that the constructor sets and nothing changes later.
  \<open>maximise\<close> is \<open>this.fitness.maximise\<close>; the fitness function itself is only called
  by \<open>evolve\<close>, outside the operations modelled here. \<open>pmut\<close> is a float that is only
  compared with random numbers, and is taken as a real; \<open>trunc\<close> is a float that is
  multiplied with \<open>popsize\<close>, and is a \<open>double\<close>.
\<close>

record ge =
  interactive :: bool
  maximise :: bool
  grammar :: grammar
  popsize :: nat
  ngens :: nat
  pmut :: real
  trunc :: double
  maxdepth :: nat
  genomelength :: nat
  maxcodon :: jsnum

text \<open>
  The constructor. \<open>fitness\<close> is \<open>None\<close> for \<open>null\<close> (interactive use: a dummy fitness
  with \<open>maximise = true\<close>), else the \<open>maximise\<close> flag of the fitness function given.
\<close>

definition new_GE ::
  "bool option \<Rightarrow> symbol \<Rightarrow> rules \<Rightarrow> nat \<Rightarrow> nat \<Rightarrow> real \<Rightarrow> double \<Rightarrow> nat \<Rightarrow> nat \<Rightarrow> ge result" where
  "new_GE fitness start_sym obj popsize' ngens' pmut' trunc' maxdepth' genomelength' =
     (case loadGrammar start_sym obj of
        Throw e \<Rightarrow> Throw e
      | Return gr \<Rightarrow> Return \<lparr>interactive = (fitness = None),
                              maximise = (case fitness of None \<Rightarrow> True | Some m \<Rightarrow> m),
                              grammar = gr, popsize = popsize', ngens = ngens', pmut = pmut',
                              trunc = trunc', maxdepth = maxdepth',
                              genomelength = genomelength', maxcodon = LCM_js gr\<rparr>)"

section \<open>Genotype to phenotype\<close>

text \<open>
  A genome is an array of codons. \<open>genomeIterator\<close> enumerates it: the iterator is the
  genome together with the index of the next pair \<open>[i, g[i]]\<close> it will yield; it is done
  when the index reaches the length.
\<close>

type_synonym genome = "jsnum list"

text \<open>
  The escape loop at the depth limit:
  \<^verbatim>\<open>
  while (p.indexOf(s) != -1) {
      codon = (codon + 1) % this.maxcodon;
      p = r[codon % r.length];
  }\<close>
  \<open>p\<close> is \<open>None\<close> when the array read gave \<open>undefined\<close>; \<open>p.indexOf\<close> then throws.
  The loop has no bound, so it is a partial function: \<open>None\<close> is "never exits".
\<close>

partial_function (option) escape ::
  "production list \<Rightarrow> symbol \<Rightarrow> jsnum \<Rightarrow> jsnum \<Rightarrow> production option
     \<Rightarrow> (jsnum \<times> production option) result option" where
  "escape r s mc codon p =
     (case p of
        None \<Rightarrow> Some (Throw TypeError)
      | Some pr \<Rightarrow>
          if s \<in> set pr
          then escape r s mc (jsmod (jsinc codon) mc)
                 (jsindex r (jsmod (jsmod (jsinc codon) mc) (Num (length r))))
          else Some (Return (codon, p)))"

declare escape.simps [code]

text \<open>
  The result of a derivation that returned: \<open>Exhausted\<close> is the \<open>null\<close> returned when the
  iterator is done, \<open>Derived p k\<close> is the text \<open>p\<close>, with the iterator left at index \<open>k\<close>.
\<close>

datatype derivation = Exhausted | Derived string nat

text \<open>
  The choice of the production inside \<open>mapGenomeToPhenotype\<close>, once the iterator has
  yielded \<open>codon\<close>: \<open>r = this.grammar.rules[s]\<close> (\<open>undefined\<close> for a symbol with no rule,
  and then \<open>r.length\<close> throws), \<open>p = r[codon % r.length]\<close>, the escape loop when
  \<open>depth >= this.maxdepth\<close> and \<open>s\<close> is a recursive nonterminal, and \<open>p.length\<close> of the
  \<open>for\<close> loop, which throws when \<open>p\<close> is \<open>undefined\<close>.
\<close>

definition choose_production :: "ge \<Rightarrow> nat \<Rightarrow> symbol \<Rightarrow> jsnum \<Rightarrow> production result option" where
  "choose_production G depth s codon =
     (case map_of (rules (grammar G)) s of
        None \<Rightarrow> Some (Throw TypeError)
      | Some r \<Rightarrow>
          let p = jsindex r (jsmod codon (Num (length r)))
          in (case (if maxdepth G \<le> depth \<and> s \<in> recursive_NTs (grammar G)
                    then escape r s (maxcodon G) codon p
                    else Some (Return (codon, p))) of
                None \<Rightarrow> None
              | Some (Throw e) \<Rightarrow> Some (Throw e)
              | Some (Return (codon', None)) \<Rightarrow> Some (Throw TypeError)
              | Some (Return (codon', Some pr)) \<Rightarrow> Some (Return pr)))"

text \<open>
  \<open>mapGenomeToPhenotype(g, depth, s)\<close>: the iterator is the genome \<open>g\<close> with the index
  \<open>it\<close>; \<open>s0\<close> is \<open>None\<close> for the default \<open>null\<close>, which \<open>symbol_or_start\<close> replaces by
  the start symbol (\<open>if (s == null) s = this.grammar.start_rule\<close>).
  \<open>expand\<close> is the \<open>for\<close> loop over the symbols of the chosen production, \<open>d\<close> the array
  of pieces pushed so far. Both return the index the iterator is left at.
\<close>

definition symbol_or_start :: "ge \<Rightarrow> symbol option \<Rightarrow> symbol" where
  "symbol_or_start G s0 = (case s0 of None \<Rightarrow> start_rule (grammar G) | Some s \<Rightarrow> s)"

function mapGenomeToPhenotype ::
    "ge \<Rightarrow> genome \<Rightarrow> nat \<Rightarrow> nat \<Rightarrow> symbol option \<Rightarrow> derivation result option"
  and expand ::
    "ge \<Rightarrow> genome \<Rightarrow> nat \<Rightarrow> nat \<Rightarrow> production \<Rightarrow> string list \<Rightarrow> derivation result option"
where
  "mapGenomeToPhenotype G g it depth s0 =
     (if length g \<le> it then Some (Return Exhausted)
      else
        (case choose_production G depth (symbol_or_start G s0) (g ! it) of
           None \<Rightarrow> None
         | Some (Throw e) \<Rightarrow> Some (Throw e)
         | Some (Return p) \<Rightarrow> expand G g (Suc it) depth p []))"
| "expand G g it depth [] d = Some (Return (Derived (concat d) it))"
| "expand G g it depth (sy # syms) d =
     (if sy \<in> terminals (grammar G) then expand G g it depth syms (d @ [sy])
      else
        (case mapGenomeToPhenotype G g it (Suc depth) (Some sy) of
           None \<Rightarrow> None
         | Some (Throw e) \<Rightarrow> Some (Throw e)
         | Some (Return Exhausted) \<Rightarrow> Some (Return Exhausted)
         | Some (Return (Derived str it')) \<Rightarrow> expand G g it' depth syms (d @ [str])))"
  by pat_completeness auto

text \<open>
  The recursion ends because every call of \<open>mapGenomeToPhenotype\<close> that goes on moves
  the iterator forward, and no call moves it back.
\<close>

lemma cursor_not_back:
  "mapGenomeToPhenotype_expand_dom (Inl (G, g, it, depth, s0)) \<Longrightarrow>
     mapGenomeToPhenotype G g it depth s0 = Some (Return (Derived str k)) \<Longrightarrow> it \<le> k"
  "mapGenomeToPhenotype_expand_dom (Inr (G, g, it, depth, p, d)) \<Longrightarrow>
     expand G g it depth p d = Some (Return (Derived str k)) \<Longrightarrow> it \<le> k"
proof (induction G g it depth s0 and G g it depth p d arbitrary: str k and str k
    rule: mapGenomeToPhenotype_expand.pinduct)
  case (1 G g it depth s0)
  from "1.prems" "1.hyps"
  have res: "mapGenomeToPhenotype G g it depth s0 = Some (Return (Derived str k))"
    and dom: "mapGenomeToPhenotype_expand_dom (Inl (G, g, it, depth, s0))" by auto
  from res show ?case unfolding mapGenomeToPhenotype.psimps[OF dom]
    by (auto split: if_splits option.splits result.splits dest!: "1.IH"[rotated -1])
next
  case (2 G g it depth d)
  then show ?case by (simp add: expand.psimps)
next
  case (3 G g it depth sy syms d)
  from "3.prems" "3.hyps"
  have res: "expand G g it depth (sy # syms) d = Some (Return (Derived str k))"
    and dom: "mapGenomeToPhenotype_expand_dom (Inr (G, g, it, depth, sy # syms, d))" by auto
  note eq = expand.psimps(2)[OF dom]
  show ?case
  proof (cases "sy \<in> terminals (grammar G)")
    case True
    with res eq have "expand G g it depth syms (d @ [sy]) = Some (Return (Derived str k))"
      by simp
    from "3.IH"(1)[OF True this] show ?thesis .
  next
    case False
    with res eq obtain s' k' where
      m: "mapGenomeToPhenotype G g it (Suc depth) (Some sy) = Some (Return (Derived s' k'))" and
      e: "expand G g k' depth syms (d @ [s']) = Some (Return (Derived str k))"
      by (auto split: option.splits result.splits derivation.splits)
    from "3.IH"(2)[OF False m] have "it \<le> k'" .
    moreover from "3.IH"(3)[OF False m refl refl e] have "k' \<le> k" .
    ultimately show ?thesis by simp
  qed
qed

termination mapGenomeToPhenotype
proof (relation "measures
    [\<lambda>x. case x of Inl (G, g, it, depth, s0) \<Rightarrow> length g - it
                  | Inr (G, g, it, depth, p, d) \<Rightarrow> length g - it,
     \<lambda>x. case x of Inl _ \<Rightarrow> 0 | Inr (G, g, it, depth, p, d) \<Rightarrow> Suc (length p)]",
    goal_cases)
  case (5 G g it depth sy syms d x2 x2a x21 x22)
  then show ?case by (auto dest: cursor_not_back)
qed simp_all

declare mapGenomeToPhenotype.simps [simp del]

section \<open>Individuals\<close>

text \<open>
  A fitness slot holds \<open>null\<close> (set by \<open>mapGenomeToIndividual\<close>), a number, or
  \<open>undefined\<close> (what \<open>fitvals[i]\<close> is beyond the end of \<open>fitvals\<close>). Numbers are
  JavaScript floats, taken as reals.
\<close>

datatype fitness = FNull | FUndefined | FNum real

text \<open>An individual is the array \<open>[genome, phenotype, used_codons, fitness]\<close>.\<close>

record individual =
  genome :: genome
  phenotype :: string
  used_codons :: nat
  fitness :: fitness

text \<open>
  \<^verbatim>\<open>
  i = this.genomeIterator(g)
  p = this.mapGenomeToPhenotype(i, 0);
  if (p == null) { return null; }
  c = i.next().value[0] - 1; // subtract 1
  f = null;
  return [g, p, c, f];\<close>
  \<open>Return None\<close> is the \<open>null\<close> returned. After a derivation that left the iterator at
  \<open>k\<close>, \<open>i.next()\<close> yields \<open>[k, g[k]]\<close> when \<open>k < g.length\<close>; otherwise the iterator is
  done, \<open>i.next().value\<close> is \<open>undefined\<close> and reading \<open>[0]\<close> of it throws.
\<close>

definition mapGenomeToIndividual :: "ge \<Rightarrow> genome \<Rightarrow> individual option result option" where
  "mapGenomeToIndividual G g =
     (case mapGenomeToPhenotype G g 0 0 None of
        None \<Rightarrow> None
      | Some (Throw e) \<Rightarrow> Some (Throw e)
      | Some (Return Exhausted) \<Rightarrow> Some (Return None)
      | Some (Return (Derived p k)) \<Rightarrow>
          if k < length g
          then Some (Return (Some \<lparr>genome = g, phenotype = p, used_codons = k - 1,
                                    fitness = FNull\<rparr>))
          else Some (Throw TypeError))"

section \<open>Random numbers\<close>

text \<open>
  The engine draws from the Mersenne Twister \<open>mt\<close> (\<open>mt.int()\<close>, a 32-bit unsigned
  integer, and \<open>mt.random()\<close>, that integer scaled into \<open>[0, 1)\<close>) and, inside
  \<open>_.sampleSize\<close>, from \<open>Math.random\<close>. Both generators are outside the repository.
  The model has one source \<open>R\<close> of natural numbers, read at successive positions; the
  state counts the draws made. \<open>R n\<close> stands for the 32-bit integer the generator gives
  at its \<open>n\<close>-th call. Properties are proved for every \<open>R\<close>.
\<close>

type_synonym rng = "nat \<Rightarrow> nat"

text \<open>
  A reference to an individual is its address in the heap; \<open>None\<close> is \<open>undefined\<close> or
  \<open>null\<close>. The heap holds the individuals that were pushed into some population: these
  arrays are shared between \<open>this.pop\<close>, \<open>this.best_ever\<close> and the next population, and
  \<open>tell\<close> writes the fitness into them in place.
\<close>

type_synonym ref = "nat option"

record state =
  heap :: "individual list"
  pop :: "ref list"
  cache :: "string set"
  best_ever :: ref
  drawn :: nat

text \<open>The state the constructor leaves.\<close>

definition initial_state :: state where
  "initial_state = \<lparr>heap = [], pop = [], cache = {}, best_ever = None, drawn = 0\<rparr>"

definition mt_int :: "rng \<Rightarrow> state \<Rightarrow> nat \<times> state" where
  "mt_int R st = (R (drawn st), st\<lparr>drawn := Suc (drawn st)\<rparr>)"

definition mt_random :: "rng \<Rightarrow> state \<Rightarrow> real \<times> state" where
  "mt_random R st = (real (R (drawn st)) / 4294967296, st\<lparr>drawn := Suc (drawn st)\<rparr>)"

text \<open>\<^verbatim>\<open>function randrange(n) { return mt.int() % n; }\<close>\<close>

definition randrange :: "rng \<Rightarrow> state \<Rightarrow> jsnum \<Rightarrow> jsnum \<times> state" where
  "randrange R st n = (case mt_int R st of (x, st') \<Rightarrow> (jsmod (Num x) n, st'))"

section \<open>Genetic operators\<close>

text \<open>
  \<open>xs.slice(start, end)\<close> for integer arguments: a negative index counts from the end,
  and both are clamped to the array.
\<close>

definition js_slice :: "'a list \<Rightarrow> int \<Rightarrow> int \<Rightarrow> 'a list" where
  "js_slice xs start end' =
     (let len = int (length xs);
          k = (if start < 0 then max (len + start) 0 else min start len);
          final = (if end' < 0 then max (len + end') 0 else min end' len)
      in take (nat (final - k)) (drop (nat k) xs))"

text \<open>
  The integer an index argument of \<open>xs.slice\<close> is converted to: \<open>NaN\<close> becomes \<open>0\<close>.
  \<open>Infinity\<close> stays as it is and \<open>slice\<close> then takes the length of \<open>xs\<close> in its place.
\<close>

fun to_integer :: "'a list \<Rightarrow> jsnum \<Rightarrow> int" where
  "to_integer xs (Num n) = int n"
| "to_integer xs NaN = 0"
| "to_integer xs Infinity = int (length xs)"

text \<open>
  \<open>xs[i] = v\<close> for a number \<open>i\<close>: beyond the end, JavaScript extends the array and
  leaves holes.
\<close>

definition js_store :: "genome \<Rightarrow> nat \<Rightarrow> jsnum \<Rightarrow> genome" where
  "js_store xs i v =
     (if i < length xs then xs[i := v] else xs @ replicate (i - length xs) NaN @ [v])"

text \<open>
  \<^verbatim>\<open>
  random_ind() {
      var ind = [];
      for (var i = 0; i < this.genomelength; i++) { ind.push(randrange(this.maxcodon)); }
      return ind;
  }\<close>
  \<open>random_codons n\<close> is the loop with \<open>n\<close> rounds left.
\<close>

fun random_codons :: "ge \<Rightarrow> rng \<Rightarrow> nat \<Rightarrow> genome \<Rightarrow> state \<Rightarrow> genome \<times> state" where
  "random_codons G R 0 ind st = (ind, st)"
| "random_codons G R (Suc n) ind st =
     (case randrange R st (maxcodon G) of (x, st') \<Rightarrow> random_codons G R n (ind @ [x]) st')"

definition random_ind :: "ge \<Rightarrow> rng \<Rightarrow> state \<Rightarrow> genome \<times> state" where
  "random_ind G R st = random_codons G R (genomelength G) [] st"

text \<open>
  \<^verbatim>\<open>
  mutate(g, c) {
      var idx = randrange(c);
      g[idx] = randrange(this.maxcodon);
      return g;
  }\<close>
  When \<open>c\<close> is \<open>0\<close> the index is \<open>NaN\<close>, and the assignment sets a property named
  \<open>"NaN"\<close>, no element (as it would for an index \<open>Infinity\<close>). The callers pass arrays
  that \<open>crossover\<close> has just built, so the update in place is seen by nobody else and the
  model returns the new array.
\<close>

definition mutate :: "ge \<Rightarrow> rng \<Rightarrow> state \<Rightarrow> genome \<Rightarrow> nat \<Rightarrow> genome \<times> state" where
  "mutate G R st g c =
     (case randrange R st (Num c) of (idx, st1) \<Rightarrow>
        (case randrange R st1 (maxcodon G) of (v, st2) \<Rightarrow>
           (case idx of Num i \<Rightarrow> (js_store g i v, st2) | NaN \<Rightarrow> (g, st2)
                       | Infinity \<Rightarrow> (g, st2))))"

text \<open>
  \<^verbatim>\<open>
  crossover(g0, g1, c0, c1) {
      var c = Math.min(c0, c1);
      var idx = randrange(c);
      var t0 = _.concat(g0.slice(0, idx), g1.slice(idx, g1.length));
      var t1 = _.concat(g1.slice(0, idx), g0.slice(idx, g0.length));
      return [t0, t1];
  }\<close>
\<close>

definition crossover ::
  "rng \<Rightarrow> state \<Rightarrow> 'a list \<Rightarrow> 'a list \<Rightarrow> nat \<Rightarrow> nat \<Rightarrow> ('a list \<times> 'a list) \<times> state" where
  "crossover R st g0 g1 c0 c1 =
     (let c = min c0 c1 in
      case randrange R st (Num c) of (idx, st') \<Rightarrow>
        (let t0 = js_slice g0 0 (to_integer g0 idx) @
                  js_slice g1 (to_integer g1 idx) (int (length g1));
             t1 = js_slice g1 0 (to_integer g1 idx) @
                  js_slice g0 (to_integer g0 idx) (int (length g0))
         in ((t0, t1), st')))"

section \<open>Population\<close>

text \<open>
  \<^verbatim>\<open>
  mapAndTryAddIndToPop(g, pop) {
      var ind = this.mapGenomeToIndividual(g);
      if (ind != null) {
          [g, p, c, f] = ind;
          if (!this.cache.has(p)) { this.cache.add(p); pop.push(ind); }
      }
  }\<close>
  \<open>pop\<close> is the array given (\<open>this.pop\<close> in \<open>init\<close>, the local \<open>newpop\<close> in
  \<open>create_new_pop\<close>); the new array is returned with the new state. The individual
  pushed is a new object: it gets the next free address.
\<close>

definition mapAndTryAddIndToPop ::
  "ge \<Rightarrow> genome \<Rightarrow> state \<Rightarrow> ref list \<Rightarrow> (state \<times> ref list) result option" where
  "mapAndTryAddIndToPop G g st pop' =
     (case mapGenomeToIndividual G g of
        None \<Rightarrow> None
      | Some (Throw e) \<Rightarrow> Some (Throw e)
      | Some (Return None) \<Rightarrow> Some (Return (st, pop'))
      | Some (Return (Some ind)) \<Rightarrow>
          if phenotype ind \<in> cache st then Some (Return (st, pop'))
          else Some (Return (st\<lparr>heap := heap st @ [ind],
                                  cache := insert (phenotype ind) (cache st)\<rparr>,
                             pop' @ [Some (length (heap st))])))"

text \<open>\<open>this.pop[i]\<close>: \<open>undefined\<close> beyond the end.\<close>

definition pop_at :: "state \<Rightarrow> nat \<Rightarrow> ref" where
  "pop_at st i = (if i < length (pop st) then pop st ! i else None)"

text \<open>
  \<^verbatim>\<open>
  init() {
      while (this.pop.length < this.popsize) {
          var g = this.random_ind(this.grammar, this.maxdepth);
          this.mapAndTryAddIndToPop(g, this.pop);
      }
      this.best_ever = this.pop[0];
  }\<close>
  The loop has no bound. The first component of the result is the exception thrown, if
  any, with the state as it was then.
\<close>

partial_function (option) init_loop :: "ge \<Rightarrow> rng \<Rightarrow> state \<Rightarrow> (error option \<times> state) option" where
  "init_loop G R st =
     (if length (pop st) < popsize G
      then (case random_ind G R st of (g, st1) \<Rightarrow>
              (case mapAndTryAddIndToPop G g st1 (pop st1) of
                 None \<Rightarrow> None
               | Some (Throw e) \<Rightarrow> Some (Some e, st1)
               | Some (Return (st2, pop2)) \<Rightarrow> init_loop G R (st2\<lparr>pop := pop2\<rparr>)))
      else Some (None, st))"

declare init_loop.simps [code]

definition init :: "ge \<Rightarrow> rng \<Rightarrow> state \<Rightarrow> (error option \<times> state) option" where
  "init G R st =
     (case init_loop G R st of
        None \<Rightarrow> None
      | Some (Some e, st1) \<Rightarrow> Some (Some e, st1)
      | Some (None, st1) \<Rightarrow> Some (None, st1\<lparr>best_ever := pop_at st1 0\<rparr>))"

text \<open>\<^verbatim>\<open>ask() { return this.pop; }\<close>\<close>

definition ask :: "state \<Rightarrow> ref list \<times> state" where
  "ask st = (pop st, st)"

subsection \<open>Selection\<close>

text \<open>
  Truthiness of a fitness slot (\<open>function(x) { return x[3] }\<close> as a filter): a number
  other than zero. \<open>null\<close> and \<open>undefined\<close> are falsy.
\<close>

fun truthy :: "fitness \<Rightarrow> bool" where
  "truthy (FNum r) = (r \<noteq> 0)"
| "truthy FNull = False"
| "truthy FUndefined = False"

text \<open>
  \<^verbatim>\<open>
  direct_selection() {
      var parents = _.filter(this.pop, function(x) { return x[3] }); // fitness > 0
      if (parents.length == 0) { parents = this.pop; }
      return parents;
  }\<close>
  Reading \<open>x[3]\<close> of an \<open>undefined\<close> element throws.
\<close>

definition direct_selection :: "state \<Rightarrow> ref list result" where
  "direct_selection st =
     (if None \<in> set (pop st) then Throw TypeError
      else (let parents = filter (\<lambda>x. truthy (fitness (heap st ! the x))) (pop st)
            in if length parents = 0 then Return (pop st) else Return parents))"

text \<open>
  \<^verbatim>\<open>
  truncation_selection() {
      return this.pop.slice(Math.floor(this.popsize * this.trunc), this.popsize-1);
  }\<close>
\<close>

definition truncation_selection :: "ge \<Rightarrow> state \<Rightarrow> ref list" where
  "truncation_selection G st =
     js_slice (pop st) (math_floor (jsmul (popsize G) (trunc G))) (int (popsize G) - 1)"

text \<open>
  The sort in \<open>tell\<close>:
  \<^verbatim>\<open>
  if (this.fitness.maximise) {
      this.pop = _.sortBy(this.pop, [function(x) { return x[3]}]);
  } else {
      this.pop = _.sortBy(this.pop, [function(x) { return -x[3]}]);
  }\<close>
  \<open>_.sortBy\<close> (lodash, outside the repository) is a stable sort, ascending in the key.
  Its order puts every number before \<open>null\<close>, \<open>null\<close> before \<open>undefined\<close>, and \<open>NaN\<close>
  last; a key is modelled as the pair of that rank and the number, ordered
  lexicographically. \<open>-null\<close> is the number \<open>0\<close> and \<open>-undefined\<close> is \<open>NaN\<close>. (Among
  several \<open>NaN\<close> keys lodash's comparison is not an order; the model keeps them in their
  former order.)
\<close>

fun sort_key_max :: "fitness \<Rightarrow> nat \<times> real" where
  "sort_key_max (FNum r) = (0, r)"
| "sort_key_max FNull = (1, 0)"
| "sort_key_max FUndefined = (2, 0)"

fun sort_key_min :: "fitness \<Rightarrow> nat \<times> real" where
  "sort_key_min (FNum r) = (0, - r)"
| "sort_key_min FNull = (0, 0)"
| "sort_key_min FUndefined = (3, 0)"

definition sort_pop :: "ge \<Rightarrow> state \<Rightarrow> error option \<times> state" where
  "sort_pop G st =
     (if None \<in> set (pop st) then (Some TypeError, st)
      else if maximise G
      then (None, st\<lparr>pop := sort_key (\<lambda>x. sort_key_max (fitness (heap st ! the x))) (pop st)\<rparr>)
      else (None, st\<lparr>pop := sort_key (\<lambda>x. sort_key_min (fitness (heap st ! the x))) (pop st)\<rparr>))"

subsection \<open>Replacement\<close>

text \<open>
  \<open>_.sampleSize(parents, 2)\<close> (lodash, outside the repository) returns two elements
  taken at random from distinct positions, or fewer when the array is shorter. lodash
  copies the array and exchanges position \<open>0\<close> with a random position from \<open>0\<close> on, then
  position \<open>1\<close> with a random position from \<open>1\<close> on.
\<close>

definition swap :: "'a list \<Rightarrow> nat \<Rightarrow> nat \<Rightarrow> 'a list" where
  "swap xs i j = xs[i := xs ! j, j := xs ! i]"

definition sampleSize :: "rng \<Rightarrow> state \<Rightarrow> 'a list \<Rightarrow> 'a list \<times> state" where
  "sampleSize R st xs =
     (let n = length xs in
      if n = 0 then ([], st)
      else
        (let a = swap xs 0 (R (drawn st) mod n);
             st1 = st\<lparr>drawn := Suc (drawn st)\<rparr>
         in if n = 1 then (take 1 a, st1)
            else (take 2 (swap a 1 (1 + R (drawn st1) mod (n - 1))),
                  st1\<lparr>drawn := Suc (drawn st1)\<rparr>)))"

text \<open>\<^verbatim>\<open>if (mt.random() < this.pmut) { g = this.mutate(g, c); }\<close>\<close>

definition maybe_mutate :: "ge \<Rightarrow> rng \<Rightarrow> state \<Rightarrow> genome \<Rightarrow> nat \<Rightarrow> genome \<times> state" where
  "maybe_mutate G R st g c =
     (case mt_random R st of (u, st1) \<Rightarrow> if u < pmut G then mutate G R st1 g c else (g, st1))"

text \<open>
  One round of the \<open>while\<close> loop of \<open>create_new_pop\<close>, over the engine state, the
  local \<open>newpop\<close> and \<open>tries\<close>:
  \<^verbatim>\<open>
  if (tries > this.popsize * 2) {
      var g = this.random_ind();
      this.mapAndTryAddIndToPop(g, newpop);
      continue;
  }
  let g0, p0, c0, f0, g1, p1, c1, f1;
  [[g0, p0, c0, f0], [g1, p1, c1, f1]] = _.sampleSize(parents, 2);
  [g0, g1] = this.crossover(g0, g1, c0, c1);
  if (mt.random() < this.pmut) { g0 = this.mutate(g0, c0); }
  this.mapAndTryAddIndToPop(g0, newpop);
  tries++;
  if (newpop.length == this.popsize) { break; }
  if (mt.random() < this.pmut) { g1 = this.mutate(g1, c1); }
  this.mapAndTryAddIndToPop(g1, newpop);
  tries++;\<close>
  The destructuring throws when the sample has fewer than two elements, or an
  \<open>undefined\<close> one. The round ends by going on (\<open>Next\<close>), by \<open>break\<close> (\<open>Leave\<close>) or by an
  exception (\<open>Thrown\<close>). \<open>breed_pair\<close> is the round from \<open>crossover\<close> on, for the two
  parents sampled; \<open>breed\<close> is the whole round.
\<close>

datatype 'a step = Thrown error 'a | Next 'a | Leave 'a

definition breed_pair ::
  "ge \<Rightarrow> rng \<Rightarrow> individual \<Rightarrow> individual \<Rightarrow> state \<Rightarrow> ref list \<Rightarrow> nat
     \<Rightarrow> (state \<times> ref list \<times> nat) step option" where
  "breed_pair G R i0 i1 st1 newpop tries =
     (case crossover R st1 (genome i0) (genome i1) (used_codons i0) (used_codons i1) of
        ((g0, g1), st2) \<Rightarrow>
          (case maybe_mutate G R st2 g0 (used_codons i0) of (g0', st3) \<Rightarrow>
             (case mapAndTryAddIndToPop G g0' st3 newpop of
                None \<Rightarrow> None
              | Some (Throw e) \<Rightarrow> Some (Thrown e (st3, newpop, tries))
              | Some (Return (st4, newpop1)) \<Rightarrow>
                  if length newpop1 = popsize G
                  then Some (Leave (st4, newpop1, tries + 1))
                  else
                    (case maybe_mutate G R st4 g1 (used_codons i1) of (g1', st5) \<Rightarrow>
                       (case mapAndTryAddIndToPop G g1' st5 newpop1 of
                          None \<Rightarrow> None
                        | Some (Throw e) \<Rightarrow> Some (Thrown e (st5, newpop1, tries + 1))
                        | Some (Return (st6, newpop2)) \<Rightarrow>
                            Some (Next (st6, newpop2, tries + 2)))))))"

definition breed ::
  "ge \<Rightarrow> rng \<Rightarrow> ref list \<Rightarrow> state \<Rightarrow> ref list \<Rightarrow> nat \<Rightarrow> (state \<times> ref list \<times> nat) step option" where
  "breed G R parents st newpop tries =
     (if popsize G * 2 < tries
      then (case random_ind G R st of (g, st1) \<Rightarrow>
              (case mapAndTryAddIndToPop G g st1 newpop of
                 None \<Rightarrow> None
               | Some (Throw e) \<Rightarrow> Some (Thrown e (st1, newpop, tries))
               | Some (Return (st2, newpop2)) \<Rightarrow> Some (Next (st2, newpop2, tries))))
      else
        (case sampleSize R st parents of
           ([Some a0, Some a1], st1) \<Rightarrow>
             breed_pair G R (heap st1 ! a0) (heap st1 ! a1) st1 newpop tries
         | (_, st1) \<Rightarrow> Some (Thrown TypeError (st1, newpop, tries))))"

text \<open>
  \<^verbatim>\<open>while (newpop.length < this.popsize) { ... }\<close>: no bound, so a partial function.
\<close>

partial_function (option) breed_loop ::
  "ge \<Rightarrow> rng \<Rightarrow> ref list \<Rightarrow> state \<Rightarrow> ref list \<Rightarrow> nat \<Rightarrow> (error option \<times> state \<times> ref list) option" where
  "breed_loop G R parents st newpop tries =
     (if length newpop < popsize G
      then (case breed G R parents st newpop tries of
              None \<Rightarrow> None
            | Some (Thrown e (st', newpop', tries')) \<Rightarrow> Some (Some e, st', newpop')
            | Some (Leave (st', newpop', tries')) \<Rightarrow> Some (None, st', newpop')
            | Some (Next (st', newpop', tries')) \<Rightarrow> breed_loop G R parents st' newpop' tries')
      else Some (None, st, newpop))"

declare breed_loop.simps [code]

text \<open>
  \<^verbatim>\<open>
  create_new_pop(parents) {
      var newpop = [];
      newpop.push(this.pop[this.pop.length-1]);
      var tries = 0;
      while ...
      return newpop;
  }\<close>
  The element pushed first is the reference held by the last slot of \<open>this.pop\<close>: the
  same individual, not a copy.
\<close>

definition create_new_pop ::
  "ge \<Rightarrow> rng \<Rightarrow> ref list \<Rightarrow> state \<Rightarrow> (error option \<times> state \<times> ref list) option" where
  "create_new_pop G R parents st =
     breed_loop G R parents st [if pop st = [] then None else last (pop st)] 0"

subsection \<open>\<open>tell\<close>\<close>

text \<open>\<open>fitvals[i]\<close>: \<open>undefined\<close> beyond the end.\<close>

definition fitval_at :: "real list \<Rightarrow> nat \<Rightarrow> fitness" where
  "fitval_at fitvals i = (if i < length fitvals then FNum (fitvals ! i) else FUndefined)"

text \<open>
  \<^verbatim>\<open>for (var i = 0; i < this.popsize; i++) { this.pop[i][3] = fitvals[i]; }\<close>
  over the indices still to do. Writing to \<open>undefined[3]\<close> throws.
\<close>

fun assign_fitvals :: "real list \<Rightarrow> nat list \<Rightarrow> state \<Rightarrow> error option \<times> state" where
  "assign_fitvals fitvals [] st = (None, st)"
| "assign_fitvals fitvals (i # is) st =
     (case pop_at st i of
        None \<Rightarrow> (Some TypeError, st)
      | Some a \<Rightarrow>
          assign_fitvals fitvals is
            (st\<lparr>heap := (heap st)[a := (heap st ! a)\<lparr>fitness := fitval_at fitvals i\<rparr>]\<rparr>))"

text \<open>
  \<open>a >= b\<close> and \<open>a <= b\<close> on fitness slots: \<open>null\<close> counts as \<open>0\<close>, and every comparison
  with \<open>undefined\<close> is false.
\<close>

fun to_number :: "fitness \<Rightarrow> real option" where
  "to_number (FNum r) = Some r"
| "to_number FNull = Some 0"
| "to_number FUndefined = None"

definition js_ge :: "fitness \<Rightarrow> fitness \<Rightarrow> bool" where
  "js_ge a b = (case (to_number a, to_number b) of (Some x, Some y) \<Rightarrow> x \<ge> y | _ \<Rightarrow> False)"

definition js_le :: "fitness \<Rightarrow> fitness \<Rightarrow> bool" where
  "js_le a b = (case (to_number a, to_number b) of (Some x, Some y) \<Rightarrow> x \<le> y | _ \<Rightarrow> False)"

text \<open>
  \<^verbatim>\<open>
  for (var i = 0; i < this.popsize; i++) {
      if ((this.fitness.maximise && this.pop[i][3] >= this.best_ever[3]) ||
          (!this.fitness.maximise && this.pop[i][3] <= this.best_ever[3])) {
          this.best_ever = this.pop[i];
      }
  }\<close>
  Reading \<open>[3]\<close> of an \<open>undefined\<close> slot or of a \<open>null\<close> \<open>best_ever\<close> throws.
\<close>

fun update_best :: "ge \<Rightarrow> nat list \<Rightarrow> state \<Rightarrow> error option \<times> state" where
  "update_best G [] st = (None, st)"
| "update_best G (i # is) st =
     (case pop_at st i of
        None \<Rightarrow> (Some TypeError, st)
      | Some a \<Rightarrow>
          (case best_ever st of
             None \<Rightarrow> (Some TypeError, st)
           | Some b \<Rightarrow>
               if (maximise G \<and> js_ge (fitness (heap st ! a)) (fitness (heap st ! b))) \<or>
                  (\<not> maximise G \<and> js_le (fitness (heap st ! a)) (fitness (heap st ! b)))
               then update_best G is (st\<lparr>best_ever := Some a\<rparr>)
               else update_best G is st))"

text \<open>
  The choice of the parents in \<open>tell\<close>: \<open>direct_selection\<close> when interactive, else the
  sort followed by \<open>truncation_selection\<close>.
\<close>

definition select_parents :: "ge \<Rightarrow> state \<Rightarrow> (ref list \<times> state) result" where
  "select_parents G st =
     (if interactive G
      then (case direct_selection st of Throw e \<Rightarrow> Throw e | Return ps \<Rightarrow> Return (ps, st))
      else (case sort_pop G st of
              (Some e, st1) \<Rightarrow> Throw e
            | (None, st1) \<Rightarrow> Return (truncation_selection G st1, st1)))"

text \<open>
  \<open>tell(fitvals)\<close>: the two loops, \<open>print_statistics\<close> (which only writes, but reads
  \<open>this.best_ever[2]\<close> and so throws on a \<open>null\<close> \<open>best_ever\<close>), the selection, and
  \<open>this.pop = this.create_new_pop(parents)\<close>. The result is the exception thrown, if
  any, and the state left; \<open>None\<close> when \<open>create_new_pop\<close> never returns.
\<close>

definition tell :: "ge \<Rightarrow> rng \<Rightarrow> state \<Rightarrow> real list \<Rightarrow> (error option \<times> state) option" where
  "tell G R st fitvals =
     (case assign_fitvals fitvals [0..<popsize G] st of
        (Some e, st1) \<Rightarrow> Some (Some e, st1)
      | (None, st1) \<Rightarrow>
          (case update_best G [0..<popsize G] st1 of
             (Some e, st2) \<Rightarrow> Some (Some e, st2)
           | (None, st2) \<Rightarrow>
               if best_ever st2 = None then Some (Some TypeError, st2)
               else
                 (case select_parents G st2 of
                    Throw e \<Rightarrow> Some (Some e, st2)
                  | Return (parents, st3) \<Rightarrow>
                      (case create_new_pop G R parents st3 of
                         None \<Rightarrow> None
                       | Some (Some e, st4, newpop) \<Rightarrow> Some (Some e, st4)
                       | Some (None, st4, newpop) \<Rightarrow> Some (None, st4\<lparr>pop := newpop\<rparr>)))))"

section \<open>Runs of the engine\<close>

text \<open>
  The phenotypes of the individuals ever pushed into a population, in the order of
  their admission. The heap keeps an individual when no population holds it any more.
\<close>

definition admitted :: "state \<Rightarrow> string list" where
  "admitted st = map phenotype (heap st)"

text \<open>
  No two admitted individuals have the same phenotype, and every admitted phenotype is
  in the cache.
\<close>

definition novelty_inv :: "state \<Rightarrow> bool" where
  "novelty_inv st \<longleftrightarrow> distinct (admitted st) \<and> set (admitted st) \<subseteq> cache st"

text \<open>From \<open>st\<close> to \<open>st'\<close> the cache and the admitted individuals have only grown.\<close>

definition grows :: "state \<Rightarrow> state \<Rightarrow> bool" where
  "grows st st' \<longleftrightarrow> cache st \<subseteq> cache st' \<and> (\<exists>ys. admitted st' = admitted st @ ys)"

text \<open>Every reference of the list that is not \<open>undefined\<close> is an address of the heap.\<close>

definition in_heap :: "state \<Rightarrow> ref list \<Rightarrow> bool" where
  "in_heap st refs \<longleftrightarrow> (\<forall>a. Some a \<in> set refs \<longrightarrow> a < length (heap st))"

text \<open>
  The states of an engine run: the state the constructor leaves, and the state left by
  every call of \<open>init\<close> or \<open>tell\<close> that returns or throws (\<open>ask\<close> leaves the state as it
  is).
\<close>

inductive reachable :: "ge \<Rightarrow> rng \<Rightarrow> state \<Rightarrow> bool" for G R where
  constructed: "reachable G R initial_state"
| after_init: "reachable G R st \<Longrightarrow> init G R st = Some (e, st') \<Longrightarrow> reachable G R st'"
| after_tell: "reachable G R st \<Longrightarrow> tell G R st fitvals = Some (e, st') \<Longrightarrow> reachable G R st'"

text \<open>
  Relations between the state before and after a step, used in the proofs: \<open>keeps\<close> for
  the store of individuals, \<open>only_drawn\<close> for a step that only draws random numbers,
  \<open>step_ok\<close> for a step on a state and a local array of references, \<open>op_ok\<close> for an
  operation on the state with its population. \<open>step_state\<close> is the state a round of
  the replacement loop ends in.
\<close>

definition keeps :: "state \<Rightarrow> state \<Rightarrow> bool" where
  "keeps st st' \<longleftrightarrow> grows st st' \<and> (novelty_inv st \<longrightarrow> novelty_inv st')"

definition only_drawn :: "state \<Rightarrow> state \<Rightarrow> bool" where
  "only_drawn st st' \<longleftrightarrow> st' = st\<lparr>drawn := drawn st'\<rparr>"

definition step_ok :: "state \<times> ref list \<Rightarrow> state \<times> ref list \<Rightarrow> bool" where
  "step_ok x y \<longleftrightarrow> keeps (fst x) (fst y) \<and> pop (fst y) = pop (fst x) \<and>
                   (in_heap (fst x) (snd x) \<longrightarrow> in_heap (fst y) (snd y))"

fun step_state :: "'a step \<Rightarrow> 'a" where
  "step_state (Thrown e x) = x"
| "step_state (Next x) = x"
| "step_state (Leave x) = x"

definition op_ok :: "state \<Rightarrow> state \<Rightarrow> bool" where
  "op_ok st st' \<longleftrightarrow> keeps st st' \<and> (in_heap st (pop st) \<longrightarrow> in_heap st' (pop st'))"

section \<open>Example engines\<close>

text \<open>
  The grammar \<open>{"<e>": [["0"], ["1"], ["<e>","<e>"]]}\<close>, and an interactive engine on
  it (no fitness function) with population size 2, mutation probability 1, depth limit
  6 and genomes of 4 codons.
\<close>

definition ex_rules :: rules where
  "ex_rules = [(''<e>'', [[''0''], [''1''], [''<e>'', ''<e>'']])]"

definition ex_grammar :: grammar where
  "ex_grammar = \<lparr>rules = ex_rules, nonterminals = {''<e>''}, terminals = {''0'', ''1''},
                  recursive_NTs = {''<e>''}, start_rule = ''<e>'', LCM_js = Num 3\<rparr>"

definition ex_ge :: ge where
  "ex_ge = \<lparr>interactive = True, maximise = True, grammar = ex_grammar, popsize = 2, ngens = 5,
             pmut = 1, trunc = Double False 0 0, maxdepth = 6, genomelength = 4,
             maxcodon = Num 3\<rparr>"

text \<open>The same engine with depth limit 0: the root is already at the limit.\<close>

definition ex_ge_depth0 :: ge where
  "ex_ge_depth0 = ex_ge\<lparr>maxdepth := 0\<rparr>"

text \<open>The grammar given in the header comment of the source file.\<close>

definition sr_rules :: rules where
  "sr_rules =
     [(''<e>'', [[''('', ''<e>'', ''<op>'', ''<e>'', '')''], [''('', ''<uop>'', ''<e>'', '')''],
                 [''<var>'']]),
      (''<var>'', [[''x''], [''y'']]),
      (''<op>'', [[''+''], [''.*'']]),
      (''<uop>'', [[''-'']])]"

text \<open>
  A grammar of 13 nonterminals with 9, 5, 7, 11, 13, 17, 19, 23, 29, 31, 37, 41 and 43
  productions (each production is the one terminal \<open>x\<close>).
\<close>

definition wide_rules :: rules where
  "wide_rules =
     map (\<lambda>(lhs, n). (lhs, replicate n [''x'']))
       [(''<a>'', 9), (''<b>'', 5), (''<c>'', 7), (''<d>'', 11), (''<e>'', 13), (''<f>'', 17),
        (''<g>'', 19), (''<h>'', 23), (''<i>'', 29), (''<j>'', 31), (''<k>'', 37), (''<l>'', 41),
        (''<m>'', 43)]"

text \<open>
  A grammar whose only nonterminal has two productions, both containing it, and an
  engine on it with depth limit 1.
\<close>

definition loop_rules :: rules where
  "loop_rules = [(''<e>'', [[''<e>'', ''<e>''], [''('', ''<e>'', '')'']])]"

definition loop_ge :: ge where
  "loop_ge = \<lparr>interactive = True, maximise = True,
               grammar = \<lparr>rules = loop_rules, nonterminals = {''<e>''},
                           terminals = {''('', '')''}, recursive_NTs = {''<e>''},
                           start_rule = ''<e>'', LCM_js = Num 2\<rparr>,
               popsize = 2, ngens = 5, pmut = 1, trunc = Double False 0 0, maxdepth = 1,
               genomelength = 4, maxcodon = Num 2\<rparr>"

text \<open>
  A source of random numbers for the example engine: the draws that build the genomes
  \<open>[2, 0, 0, 0]\<close> and \<open>[2, 0, 1, 0]\<close> in \<open>init\<close>, then six draws for the first call
  of \<open>tell\<close>, then zeros. \<open>ex_S1\<close> is the state after \<open>init\<close>.
\<close>

definition ex_R :: rng where
  "ex_R n = (if n < 14 then [2, 0, 0, 0, 2, 0, 1, 0, 0, 0, 0, 0, 1, 1] ! n else 0)"

definition ex_S1 :: state where
  "ex_S1 =
     \<lparr>heap = [\<lparr>genome = [Num 2, Num 0, Num 0, Num 0], phenotype = ''00'', used_codons = 2,
                 fitness = FNull\<rparr>,
               \<lparr>genome = [Num 2, Num 0, Num 1, Num 0], phenotype = ''01'', used_codons = 2,
                 fitness = FNull\<rparr>],
       pop = [Some 0, Some 1], cache = {''00'', ''01''}, best_ever = Some 0, drawn = 8\<rparr>"

text \<open>
  The states after \<open>tell([1, 5])\<close> on \<open>ex_S1\<close> and after \<open>tell([1, 2])\<close> on the result.
\<close>

definition ex_S2 :: state where
  "ex_S2 =
     \<lparr>heap = [\<lparr>genome = [Num 2, Num 0, Num 0, Num 0], phenotype = ''00'', used_codons = 2,
                 fitness = FNum 1\<rparr>,
               \<lparr>genome = [Num 2, Num 0, Num 1, Num 0], phenotype = ''01'', used_codons = 2,
                 fitness = FNum 5\<rparr>,
               \<lparr>genome = [Num 2, Num 1, Num 1, Num 0], phenotype = ''11'', used_codons = 2,
                 fitness = FNull\<rparr>],
       pop = [Some 1, Some 2], cache = {''00'', ''01'', ''11''}, best_ever = Some 1,
       drawn = 14\<rparr>"

definition ex_S3 :: state where
  "ex_S3 =
     \<lparr>heap = [\<lparr>genome = [Num 2, Num 0, Num 0, Num 0], phenotype = ''00'', used_codons = 2,
                 fitness = FNum 1\<rparr>,
               \<lparr>genome = [Num 2, Num 0, Num 1, Num 0], phenotype = ''01'', used_codons = 2,
                 fitness = FNum 1\<rparr>,
               \<lparr>genome = [Num 2, Num 1, Num 1, Num 0], phenotype = ''11'', used_codons = 2,
                 fitness = FNum 2\<rparr>,
               \<lparr>genome = [Num 0, Num 1, Num 1, Num 0], phenotype = ''0'', used_codons = 0,
                 fitness = FNull\<rparr>],
       pop = [Some 2, Some 3], cache = {''00'', ''01'', ''11'', ''0''}, best_ever = Some 2,
       drawn = 20\<rparr>"

text \<open>
  An engine with a fitness function (\<open>maximise\<close> as given), population size 4,
  truncation fraction 0.25 and genomes of 6 codons. \<open>sel_R\<close> is a source of random
  numbers for it: the 24 draws of \<open>init\<close>, then 15 draws for one call of \<open>tell\<close>.
  \<open>sel_state0\<close> is the state after \<open>init\<close>; \<open>sel_state\<close> is that state once \<open>tell\<close> has
  written the fitness values 1, 5, 2, 3 and, maximising, updated \<open>best_ever\<close>;
  \<open>sel_state_told\<close> is the state that call of \<open>tell\<close> leaves.
\<close>

definition trunc_ge :: "bool \<Rightarrow> ge" where
  "trunc_ge m = ex_ge\<lparr>interactive := False, maximise := m, popsize := 4,
                       trunc := Double False 1 (- 2), genomelength := 6\<rparr>"

definition sel_R :: rng where
  "sel_R n =
     (if n < 39
      then [0, 0, 0, 0, 0, 0, 1, 0, 0, 0, 0, 0, 2, 0, 0, 0, 0, 0, 2, 0, 1, 0, 0, 0,
            0, 0, 1, 0, 1, 1, 0, 1, 2, 0, 0, 1, 0, 1, 2] ! n
      else 0)"

definition sel_state0 :: state where
  "sel_state0 =
     \<lparr>heap = [\<lparr>genome = [Num 0, Num 0, Num 0, Num 0, Num 0, Num 0], phenotype = ''0'',
                 used_codons = 0, fitness = FNull\<rparr>,
               \<lparr>genome = [Num 1, Num 0, Num 0, Num 0, Num 0, Num 0], phenotype = ''1'',
                 used_codons = 0, fitness = FNull\<rparr>,
               \<lparr>genome = [Num 2, Num 0, Num 0, Num 0, Num 0, Num 0], phenotype = ''00'',
                 used_codons = 2, fitness = FNull\<rparr>,
               \<lparr>genome = [Num 2, Num 0, Num 1, Num 0, Num 0, Num 0], phenotype = ''01'',
                 used_codons = 2, fitness = FNull\<rparr>],
       pop = [Some 0, Some 1, Some 2, Some 3], cache = {''0'', ''1'', ''00'', ''01''},
       best_ever = Some 0, drawn = 24\<rparr>"

definition sel_state :: state where
  "sel_state =
     \<lparr>heap = [\<lparr>genome = [Num 0, Num 0, Num 0, Num 0, Num 0, Num 0], phenotype = ''0'',
                 used_codons = 0, fitness = FNum 1\<rparr>,
               \<lparr>genome = [Num 1, Num 0, Num 0, Num 0, Num 0, Num 0], phenotype = ''1'',
                 used_codons = 0, fitness = FNum 5\<rparr>,
               \<lparr>genome = [Num 2, Num 0, Num 0, Num 0, Num 0, Num 0], phenotype = ''00'',
                 used_codons = 2, fitness = FNum 2\<rparr>,
               \<lparr>genome = [Num 2, Num 0, Num 1, Num 0, Num 0, Num 0], phenotype = ''01'',
                 used_codons = 2, fitness = FNum 3\<rparr>],
       pop = [Some 0, Some 1, Some 2, Some 3], cache = {''0'', ''1'', ''00'', ''01''},
       best_ever = Some 1, drawn = 24\<rparr>"

definition sel_state_told :: state where
  "sel_state_told =
     \<lparr>heap = [\<lparr>genome = [Num 0, Num 0, Num 0, Num 0, Num 0, Num 0], phenotype = ''0'',
                 used_codons = 0, fitness = FNum 1\<rparr>,
               \<lparr>genome = [Num 1, Num 0, Num 0, Num 0, Num 0, Num 0], phenotype = ''1'',
                 used_codons = 0, fitness = FNum 5\<rparr>,
               \<lparr>genome = [Num 2, Num 0, Num 0, Num 0, Num 0, Num 0], phenotype = ''00'',
                 used_codons = 2, fitness = FNum 2\<rparr>,
               \<lparr>genome = [Num 2, Num 0, Num 1, Num 0, Num 0, Num 0], phenotype = ''01'',
                 used_codons = 2, fitness = FNum 3\<rparr>,
               \<lparr>genome = [Num 2, Num 1, Num 1, Num 0, Num 0, Num 0], phenotype = ''11'',
                 used_codons = 2, fitness = FNull\<rparr>,
               \<lparr>genome = [Num 2, Num 2, Num 0, Num 0, Num 0, Num 0], phenotype = ''000'',
                 used_codons = 4, fitness = FNull\<rparr>,
               \<lparr>genome = [Num 2, Num 2, Num 1, Num 0, Num 0, Num 0], phenotype = ''100'',
                 used_codons = 4, fitness = FNull\<rparr>],
       pop = [Some 1, Some 4, Some 5, Some 6],
       cache = {''0'', ''1'', ''00'', ''01'', ''11'', ''000'', ''100''},
       best_ever = Some 1, drawn = 39\<rparr>"

text \<open>
  For the statements below: the fitness number of the individual a reference points
  to (0 when the slot holds no number).
\<close>

definition num_fitness :: "state \<Rightarrow> ref \<Rightarrow> real" where
  "num_fitness st x = (case fitness (heap st ! the x) of FNum r \<Rightarrow> r | _ \<Rightarrow> 0)"

section \<open>Integers below \<open>2^53\<close>\<close>

text \<open>An integer below \<open>2^53\<close> has at most 53 bits, and rounding leaves it as it is.\<close>

lemma bit_length_le: "n < 2 ^ k \<Longrightarrow> bit_length n \<le> k"
proof (induction k arbitrary: n)
  case 0
  then show ?case by (simp add: bit_length.simps)
next
  case (Suc k)
  show ?case
  proof (cases "n = 0")
    case True
    then show ?thesis by (simp add: bit_length.simps)
  next
    case False
    from Suc.prems have "n div 2 < 2 ^ k" by simp
    from Suc.IH[OF this] False show ?thesis by (subst bit_length.simps) simp
  qed
qed

lemma round_to_0: "round_to 0 n = n"
  by (simp add: round_to_def)

lemma round_double_exact: "n < 2 ^ 53 \<Longrightarrow> round_double n = n"
  using bit_length_le[of n 53] by (simp add: round_double_def round_to_0)

lemma to_double_exact:
  assumes "n < 2 ^ 53"
  shows "to_double n = Num n"
proof -
  from bit_length_le[OF assms] have "bit_length n \<le> 1024" by simp
  with round_double_exact[OF assms] show ?thesis by (simp add: to_double_def)
qed

section \<open>Properties of the mapper\<close>

lemma ex_grammar_loaded: "loadGrammar ''<e>'' ex_rules = Return ex_grammar"
  by code_simp

lemma ex_ge_constructed:
  "new_GE None ''<e>'' ex_rules 2 5 1 (Double False 0 0) 6 4 = Return ex_ge"
  by code_simp

text \<open>
  A derivation that returns a text has read at least one codon and has not run past the
  end of the genome.
\<close>

lemma cursor_bounds:
  "mapGenomeToPhenotype G g it depth s0 = Some (Return (Derived str k)) \<Longrightarrow>
     it < k \<and> k \<le> length g"
  "expand G g it depth p d = Some (Return (Derived str k)) \<Longrightarrow>
     it \<le> k \<and> (it \<le> length g \<longrightarrow> k \<le> length g)"
proof (induction G g it depth s0 and G g it depth p d arbitrary: str k and str k
    rule: mapGenomeToPhenotype_expand.induct)
  case (1 G g it depth s0)
  from "1.prems" obtain p where
    a: "\<not> length g \<le> it" and
    b: "choose_production G depth (symbol_or_start G s0) (g ! it) = Some (Return p)" and
    c: "expand G g (Suc it) depth p [] = Some (Return (Derived str k))"
    by (auto simp: mapGenomeToPhenotype.simps split: if_splits option.splits result.splits)
  from "1.IH"[OF a b refl c] a show ?case by simp
next
  case (2 G g it depth d)
  then show ?case by simp
next
  case (3 G g it depth sy syms d)
  show ?case
  proof (cases "sy \<in> terminals (grammar G)")
    case True
    with "3.prems" have "expand G g it depth syms (d @ [sy]) = Some (Return (Derived str k))"
      by simp
    from "3.IH"(1)[OF True this] show ?thesis .
  next
    case False
    with "3.prems" obtain s' k' where
      m: "mapGenomeToPhenotype G g it (Suc depth) (Some sy) = Some (Return (Derived s' k'))" and
      e: "expand G g k' depth syms (d @ [s']) = Some (Return (Derived str k))"
      by (auto split: option.splits result.splits derivation.splits)
    from "3.IH"(2)[OF False m] have "it < k' \<and> k' \<le> length g" .
    moreover from "3.IH"(3)[OF False m refl refl e]
    have "k' \<le> k \<and> (k' \<le> length g \<longrightarrow> k \<le> length g)" .
    ultimately show ?thesis by simp
  qed
qed

lemma mapGenomeToIndividual_SomeD:
  assumes "mapGenomeToIndividual G g = Some (Return (Some ind))"
  obtains p k where
    "mapGenomeToPhenotype G g 0 0 None = Some (Return (Derived p k))"
    "k < length g"
    "ind = \<lparr>genome = g, phenotype = p, used_codons = k - 1, fitness = FNull\<rparr>"
  using assms
  by (auto simp: mapGenomeToIndividual_def
      split: option.splits result.splits derivation.splits if_splits)

text \<open>
  Claim C1, as the code has it. The claim says that \<open>usedCodonCount\<close> is the final
  cursor value, the number of codons read. \<open>mapGenomeToIndividual\<close> subtracts one:
  whenever it returns an individual, the derivation has left the iterator at some \<open>k\<close>
  with \<open>1 \<le> k < length g\<close>, the phenotype is the text derived, and \<open>used_codons\<close> is
  \<open>k - 1\<close>, the index of the last codon read. For the grammar of the claim, with one
  more codon after those read: \<open>[0, 0]\<close> gives \<open>"0"\<close> with \<open>used_codons = 0\<close>,
  \<open>[2, 0, 1, 0]\<close> gives \<open>"01"\<close> with \<open>used_codons = 2\<close>, \<open>[1, 0]\<close> gives \<open>"1"\<close> with
  \<open>used_codons = 0\<close>.
\<close>

theorem mapGenomeToIndividual_used_codons:
  assumes "mapGenomeToIndividual G g = Some (Return (Some ind))"
  shows "(\<exists>k. mapGenomeToPhenotype G g 0 0 None = Some (Return (Derived (phenotype ind) k)) \<and>
              1 \<le> k \<and> k < length g \<and> used_codons ind = k - 1) \<and>
         mapGenomeToIndividual ex_ge [Num 0, Num 0] =
           Some (Return (Some \<lparr>genome = [Num 0, Num 0], phenotype = ''0'', used_codons = 0,
                                fitness = FNull\<rparr>)) \<and>
         mapGenomeToIndividual ex_ge [Num 2, Num 0, Num 1, Num 0] =
           Some (Return (Some \<lparr>genome = [Num 2, Num 0, Num 1, Num 0], phenotype = ''01'',
                                used_codons = 2, fitness = FNull\<rparr>)) \<and>
         mapGenomeToIndividual ex_ge [Num 1, Num 0] =
           Some (Return (Some \<lparr>genome = [Num 1, Num 0], phenotype = ''1'', used_codons = 0,
                                fitness = FNull\<rparr>))"
proof -
  from assms obtain p k where
    m: "mapGenomeToPhenotype G g 0 0 None = Some (Return (Derived p k))" and
    k: "k < length g" and
    i: "ind = \<lparr>genome = g, phenotype = p, used_codons = k - 1, fitness = FNull\<rparr>"
    by (rule mapGenomeToIndividual_SomeD)
  from cursor_bounds(1)[OF m] have "1 \<le> k" by simp
  with m k i
  have "\<exists>k. mapGenomeToPhenotype G g 0 0 None = Some (Return (Derived (phenotype ind) k)) \<and>
            1 \<le> k \<and> k < length g \<and> used_codons ind = k - 1"
    by auto
  moreover have "mapGenomeToIndividual ex_ge [Num 0, Num 0] =
      Some (Return (Some \<lparr>genome = [Num 0, Num 0], phenotype = ''0'', used_codons = 0,
                           fitness = FNull\<rparr>))"
    by code_simp
  moreover have "mapGenomeToIndividual ex_ge [Num 2, Num 0, Num 1, Num 0] =
      Some (Return (Some \<lparr>genome = [Num 2, Num 0, Num 1, Num 0], phenotype = ''01'',
                           used_codons = 2, fitness = FNull\<rparr>))"
    by code_simp
  moreover have "mapGenomeToIndividual ex_ge [Num 1, Num 0] =
      Some (Return (Some \<lparr>genome = [Num 1, Num 0], phenotype = ''1'', used_codons = 0,
                           fitness = FNull\<rparr>))"
    by code_simp
  ultimately show ?thesis by blast
qed

theorem mapGenomeToIndividual_used_codons_witness:
  "mapGenomeToIndividual ex_ge [Num 2, Num 0, Num 1, Num 0] =
     Some (Return (Some \<lparr>genome = [Num 2, Num 0, Num 1, Num 0], phenotype = ''01'',
                          used_codons = 2, fitness = FNull\<rparr>)) \<and>
   (\<exists>k. mapGenomeToPhenotype ex_ge [Num 2, Num 0, Num 1, Num 0] 0 0 None =
           Some (Return (Derived (phenotype \<lparr>genome = [Num 2, Num 0, Num 1, Num 0],
                                              phenotype = ''01'', used_codons = 2,
                                              fitness = FNull\<rparr>) k)) \<and>
         1 \<le> k \<and> k < length [Num 2, Num 0, Num 1, Num 0] \<and>
         used_codons \<lparr>genome = [Num 2, Num 0, Num 1, Num 0], phenotype = ''01'',
                       used_codons = 2, fitness = FNull\<rparr> = k - 1)"
proof -
  have h: "mapGenomeToIndividual ex_ge [Num 2, Num 0, Num 1, Num 0] =
     Some (Return (Some \<lparr>genome = [Num 2, Num 0, Num 1, Num 0], phenotype = ''01'',
                          used_codons = 2, fitness = FNull\<rparr>))"
    by code_simp
  show ?thesis
    by (rule conjI[OF h conjunct1[OF mapGenomeToIndividual_used_codons[OF h]]])
qed

text \<open>
  Claim C1 as stated fails. The genome \<open>[2, 0, 1]\<close> derives \<open>"01"\<close> and leaves the
  iterator at 3, but no individual comes back: the iterator is done, and
  \<open>i.next().value[0]\<close> throws. With a fourth codon the individual comes back with
  \<open>used_codons = 2\<close>, not the 3 codons read.
\<close>

theorem used_codons_counterexample:
  "mapGenomeToPhenotype ex_ge [Num 2, Num 0, Num 1] 0 0 None = Some (Return (Derived ''01'' 3)) \<and>
   mapGenomeToIndividual ex_ge [Num 2, Num 0, Num 1] = Some (Throw TypeError) \<and>
   mapGenomeToPhenotype ex_ge [Num 2, Num 0, Num 1, Num 0] 0 0 None =
     Some (Return (Derived ''01'' 3)) \<and>
   mapGenomeToIndividual ex_ge [Num 2, Num 0, Num 1, Num 0] =
     Some (Return (Some \<lparr>genome = [Num 2, Num 0, Num 1, Num 0], phenotype = ''01'',
                          used_codons = 2, fitness = FNull\<rparr>))"
  by code_simp

text \<open>
  Claim C10. The mapper reads the genome through the iterator and writes to it nowhere;
  the codon changed by the escape loop is the local variable. The individual returned
  holds the genome it was given, element for element.
\<close>

theorem mapGenomeToIndividual_keeps_genome:
  assumes "mapGenomeToIndividual G g = Some (Return (Some ind))"
  shows "genome ind = g \<and> (\<forall>i < length g. genome ind ! i = g ! i)"
  using assms by (auto elim: mapGenomeToIndividual_SomeD)

text \<open>
  At depth limit 0 the codon 2 of \<open>[2, 0]\<close> is replaced by 0 in the escape loop (the
  phenotype is \<open>"0"\<close>, not a text of two digits), and the genome returned still starts
  with 2.
\<close>

theorem mapGenomeToIndividual_keeps_genome_witness:
  "mapGenomeToIndividual ex_ge_depth0 [Num 2, Num 0] =
     Some (Return (Some \<lparr>genome = [Num 2, Num 0], phenotype = ''0'', used_codons = 0,
                          fitness = FNull\<rparr>)) \<and>
   genome \<lparr>genome = [Num 2, Num 0], phenotype = ''0'', used_codons = 0, fitness = FNull\<rparr> =
     [Num 2, Num 0]"
proof -
  have h: "mapGenomeToIndividual ex_ge_depth0 [Num 2, Num 0] =
     Some (Return (Some \<lparr>genome = [Num 2, Num 0], phenotype = ''0'', used_codons = 0,
                          fitness = FNull\<rparr>))"
    by code_simp
  from mapGenomeToIndividual_keeps_genome[OF h] h show ?thesis by simp
qed

subsection \<open>The escape loop\<close>

lemma loop_ge_constructed:
  "new_GE None ''<e>'' loop_rules 2 5 1 (Double False 0 0) 1 4 = Return loop_ge"
  by code_simp

text \<open>
  When every production of \<open>r\<close> contains \<open>s\<close>, the loop entered with a numeric codon and
  a production of \<open>r\<close> stays in that situation for ever: it cannot return. (The modulus
  and the codon are below \<open>2^53\<close>, where the increment is exact.)
\<close>

lemma escape_Some_imp:
  assumes ret: "escape r s mc codon p = Some y"
  shows "\<not> ((\<forall>pr \<in> set r. s \<in> set pr) \<and> (\<exists>m>0. m < 2 ^ 53 \<and> mc = Num m) \<and>
            (\<exists>c. Suc c < 2 ^ 53 \<and> codon = Num c) \<and> (\<exists>pr \<in> set r. p = Some pr))"
proof -
  let ?stuck = "\<lambda>r s mc codon p. (\<forall>pr \<in> set r. s \<in> set pr) \<and>
            (\<exists>m>0. m < 2 ^ 53 \<and> mc = Num m) \<and>
            (\<exists>c. Suc c < 2 ^ 53 \<and> codon = Num c) \<and> (\<exists>pr \<in> set r. p = Some pr)"
  show ?thesis
  proof (rule escape.raw_induct[where P = "\<lambda>r s mc codon p y. \<not> ?stuck r s mc codon p",
        OF _ ret])
    fix escape' r s mc codon p y
    assume IH: "\<And>r s mc codon p y.
                  escape' r s mc codon p = Some y \<Longrightarrow> \<not> ?stuck r s mc codon p"
      and body: "(case p of
                    None \<Rightarrow> Some (Throw TypeError)
                  | Some pr \<Rightarrow>
                      if s \<in> set pr
                      then escape' r s mc (jsmod (jsinc codon) mc)
                             (jsindex r (jsmod (jsmod (jsinc codon) mc) (Num (length r))))
                      else Some (Return (codon, p))) = Some y"
    show "\<not> ?stuck r s mc codon p"
    proof
      assume inv: "?stuck r s mc codon p"
      then obtain m c pr where m: "0 < m" "m < 2 ^ 53" "mc = Num m"
        and c: "Suc c < 2 ^ 53" "codon = Num c"
        and pr: "pr \<in> set r" "p = Some pr" by blast
      from inv pr have rec: "s \<in> set pr" by blast
      let ?c' = "jsmod (jsinc codon) mc"
      let ?p' = "jsindex r (jsmod ?c' (Num (length r)))"
      from body pr rec have call: "escape' r s mc ?c' ?p' = Some y" by simp
      from c(1) have "to_double (Suc c) = Num (Suc c)" by (rule to_double_exact)
      with m c have c': "?c' = Num (Suc c mod m)" by simp
      from m(1) have "Suc c mod m < m" by simp
      with m(2) have small: "Suc (Suc c mod m) < 2 ^ 53" by simp
      from pr have len: "0 < length r" by (cases r) simp_all
      with c' have "?p' = Some (r ! (Suc c mod m mod length r))" by simp
      moreover from len have "r ! (Suc c mod m mod length r) \<in> set r" by simp
      ultimately have p': "\<exists>pr \<in> set r. ?p' = Some pr" by blast
      from inv have allrec: "\<forall>pr \<in> set r. s \<in> set pr" by blast
      from m have "\<exists>m>0. m < 2 ^ 53 \<and> mc = Num m" by blast
      moreover from c' small have "\<exists>c. Suc c < 2 ^ 53 \<and> ?c' = Num c" by blast
      ultimately have "?stuck r s mc ?c' ?p'" using allrec p' by blast
      with IH[OF call] show False by blast
    qed
  qed
qed

lemma escape_diverges:
  assumes "\<forall>pr \<in> set r. s \<in> set pr" "0 < m" "m < 2 ^ 53" "Suc c < 2 ^ 53" "pr \<in> set r"
  shows "escape r s (Num m) (Num c) (Some pr) = None"
proof (cases "escape r s (Num m) (Num c) (Some pr)")
  case None
  then show ?thesis .
next
  case (Some y)
  from escape_Some_imp[OF Some] assms show ?thesis by auto
qed

text \<open>
  When some production of \<open>r\<close> does not contain \<open>s\<close>, and the modulus is a positive
  multiple of the number of productions (as a least common multiple below \<open>2^53\<close> is),
  the loop does exit: after \<open>j\<close> increments of the codon, with \<open>j\<close> less than the number
  of productions, at a production without \<open>s\<close>.
\<close>

lemma escape_steps:
  assumes n: "length r dvd m" and m: "0 < m" and mb: "m < 2 ^ 53"
  shows "s \<notin> set (r ! ((c + j) mod length r)) \<Longrightarrow>
         (\<forall>j' < j. s \<in> set (r ! ((c + j') mod length r))) \<Longrightarrow> r \<noteq> [] \<Longrightarrow>
         Suc c < 2 ^ 53 \<Longrightarrow>
         escape r s (Num m) (Num c) (Some (r ! (c mod length r))) =
           Some (Return (Num (if j = 0 then c else (c + j) mod m),
                         Some (r ! ((c + j) mod length r))))"
proof (induction j arbitrary: c)
  case 0
  then show ?case by (subst escape.simps) simp
next
  case (Suc j)
  let ?n = "length r"
  let ?c1 = "Suc c mod m"
  from Suc.prems(3) have npos: "0 < ?n" by simp
  from Suc.prems(2) have rec0: "s \<in> set (r ! (c mod ?n))" by (metis add.right_neutral zero_less_Suc)
  have cong: "(?c1 + k) mod ?n = (c + Suc k) mod ?n" for k
  proof -
    have "?c1 mod ?n = Suc c mod ?n" using n by (rule mod_mod_cancel)
    then have "(?c1 + k) mod ?n = (Suc c + k) mod ?n" by (metis mod_add_left_eq)
    then show ?thesis by simp
  qed
  have a: "s \<notin> set (r ! ((?c1 + j) mod ?n))" using Suc.prems(1) cong[of j] by simp
  have b: "\<forall>j' < j. s \<in> set (r ! ((?c1 + j') mod ?n))"
  proof (intro allI impI)
    fix j' assume "j' < j"
    then have "Suc j' < Suc j" by simp
    with Suc.prems(2) have "s \<in> set (r ! ((c + Suc j') mod ?n))" by blast
    with cong[of j'] show "s \<in> set (r ! ((?c1 + j') mod ?n))" by simp
  qed
  from m have "?c1 < m" by simp
  with mb have small: "Suc ?c1 < 2 ^ 53" by simp
  from Suc.prems(4) have inc: "to_double (Suc c) = Num (Suc c)" by (rule to_double_exact)
  from Suc.IH[OF a b Suc.prems(3) small]
  have ih: "escape r s (Num m) (Num ?c1) (Some (r ! (?c1 mod ?n))) =
              Some (Return (Num (if j = 0 then ?c1 else (?c1 + j) mod m),
                            Some (r ! ((?c1 + j) mod ?n))))" .
  have fin: "(if j = 0 then ?c1 else (?c1 + j) mod m) = (c + Suc j) mod m"
    by (simp add: mod_add_left_eq mod_Suc_eq)
  have step: "escape r s (Num m) (Num c) (Some (r ! (c mod ?n))) =
              escape r s (Num m) (Num ?c1) (Some (r ! (?c1 mod ?n)))"
    using rec0 m npos inc by (subst escape.simps) simp
  show ?case unfolding step ih fin using cong[of j] by simp
qed

lemma escape_returns:
  assumes n: "length r dvd m" and m: "0 < m" and mb: "m < 2 ^ 53" and cb: "Suc c < 2 ^ 53"
    and pr: "pr \<in> set r" "s \<notin> set pr"
  shows "\<exists>j < length r. \<exists>pr'. pr' \<in> set r \<and> s \<notin> set pr' \<and>
           escape r s (Num m) (Num c) (jsindex r (jsmod (Num c) (Num (length r)))) =
             Some (Return (Num (if j = 0 then c else (c + j) mod m), Some pr'))"
proof -
  let ?n = "length r"
  from pr(1) have ne: "r \<noteq> []" by auto
  then have npos: "0 < ?n" by simp
  from pr obtain i where i: "i < ?n" "r ! i = pr" by (auto simp: in_set_conv_nth)
  let ?P = "\<lambda>j. s \<notin> set (r ! ((c + j) mod ?n))"
  let ?j0 = "(i + ?n - c mod ?n) mod ?n"
  have "(c + ?j0) mod ?n = i"
  proof -
    have "(c + ?j0) mod ?n = (c mod ?n + (i + ?n - c mod ?n)) mod ?n"
      by (metis mod_add_eq mod_mod_trivial)
    also have "c mod ?n + (i + ?n - c mod ?n) = i + ?n"
      using npos by (simp add: less_imp_le_nat trans_le_add2)
    also have "(i + ?n) mod ?n = i" using i(1) by simp
    finally show ?thesis .
  qed
  with i pr(2) have "?P ?j0" by simp
  define j where "j = (LEAST j. ?P j)"
  from \<open>?P ?j0\<close> have Pj: "?P j" unfolding j_def by (rule LeastI)
  have least: "\<forall>j' < j. s \<in> set (r ! ((c + j') mod ?n))"
    using not_less_Least unfolding j_def by blast
  have "j \<le> ?j0" unfolding j_def using \<open>?P ?j0\<close> by (rule Least_le)
  also have "?j0 < ?n" using npos by simp
  finally have jn: "j < ?n" .
  have idx: "jsindex r (jsmod (Num c) (Num ?n)) = Some (r ! (c mod ?n))"
    using npos by simp
  from escape_steps[OF n m mb Pj least ne cb] idx
  have "escape r s (Num m) (Num c) (jsindex r (jsmod (Num c) (Num ?n))) =
          Some (Return (Num (if j = 0 then c else (c + j) mod m), Some (r ! ((c + j) mod ?n))))"
    by simp
  moreover have "r ! ((c + j) mod ?n) \<in> set r" using npos by simp
  ultimately show ?thesis using jn Pj by blast
qed

text \<open>
  Claim C2, at a failing input. The grammar \<open>{"<e>": [["<e>","<e>"], ["(","<e>",")"]]}\<close>
  with depth limit 1 and the genome \<open>[0, 0, 0]\<close>: the second codon is read at depth 1 for
  \<open><e>\<close>, both productions contain \<open><e>\<close>, and the escape loop never exits. Neither the
  mapper nor \<open>mapGenomeToIndividual\<close> returns; no failure is reported.
\<close>

theorem escape_loops_forever:
  "mapGenomeToPhenotype loop_ge [Num 0, Num 0, Num 0] 0 0 None = None \<and>
   mapGenomeToIndividual loop_ge [Num 0, Num 0, Num 0] = None"
proof -
  have e: "escape [[''<e>'', ''<e>''], [''('', ''<e>'', '')'']] ''<e>'' (Num 2) (Num 0)
             (Some [''<e>'', ''<e>'']) = None"
    by (rule escape_diverges) simp_all
  have "mapGenomeToPhenotype loop_ge [Num 0, Num 0, Num 0] 0 0 None = None"
    by (simp add: mapGenomeToPhenotype.simps choose_production_def symbol_or_start_def
        loop_ge_def loop_rules_def e)
  then show ?thesis by (simp add: mapGenomeToIndividual_def)
qed

section \<open>The codon modulus\<close>

text \<open>
  \<open>gcd\<close> is the greatest common divisor, and below \<open>2^53\<close> the operations of \<open>lcm\<close> are
  exact: \<open>lcmAll\<close> returns the least common multiple whenever that is below \<open>2^53\<close>.
\<close>

lemma gcd_js_eq: "gcd_js a b = gcd a b"
proof (induction a b rule: gcd_js.induct)
  case (1 a b)
  show ?case
  proof (cases "b = 0")
    case True
    then show ?thesis by (simp add: gcd_js.simps)
  next
    case False
    with 1 have "gcd_js a b = gcd b (a mod b)" by (simp add: gcd_js.simps)
    also have "\<dots> = gcd a b" by (metis gcd_red_nat)
    finally show ?thesis .
  qed
qed

lemma lcm_js_eq:
  assumes "0 < a \<or> 0 < b" and small: "lcm a b < 2 ^ 53"
  shows "lcm_js (Num a) b = Return (Num (lcm a b))"
proof -
  from assms have g: "gcd a b \<noteq> 0" by auto
  have prod: "a div gcd a b * b = lcm a b"
  proof -
    have "a div gcd a b * b = a * b div gcd a b" by (rule dvd_div_mult) simp
    then show ?thesis by (simp add: lcm_nat_def)
  qed
  have "a div gcd a b < 2 ^ 53"
  proof (cases "b = 0")
    case True
    with assms(1) show ?thesis by simp
  next
    case False
    then have "a div gcd a b \<le> a div gcd a b * b" by simp
    with prod small show ?thesis by simp
  qed
  then have "to_double (a div gcd a b) = Num (a div gcd a b)" by (rule to_double_exact)
  moreover from small have "to_double (lcm a b) = Num (lcm a b)" by (rule to_double_exact)
  ultimately show ?thesis using g prod by (simp add: gcd_js_eq)
qed

lemma Lcm_lengths_pos: "\<forall>n \<in> set ns. 0 < n \<Longrightarrow> 0 < Lcm (set (ns::nat list))"
  by (metis List.finite_set Lcm_0_iff_nat bot_nat_0.not_eq_extremum)

lemma reduce_lcm_eq:
  "0 < a \<Longrightarrow> \<forall>n \<in> set ns. 0 < n \<Longrightarrow> lcm a (Lcm (set ns)) < 2 ^ 53 \<Longrightarrow>
     reduce_lcm (Num a) ns = Return (Num (lcm a (Lcm (set ns))))"
proof (induction ns arbitrary: a)
  case Nil
  then show ?case by simp
next
  case (Cons n ns)
  from Cons.prems have pos: "0 < lcm a n" by (simp add: lcm_pos_nat)
  have tot: "lcm a (Lcm (set (n # ns))) = lcm (lcm a n) (Lcm (set ns))"
    by (simp add: lcm.assoc)
  from Cons.prems(2) have "0 < Lcm (set (n # ns))" by (rule Lcm_lengths_pos)
  with Cons.prems(1) have "0 < lcm a (Lcm (set (n # ns)))" by (simp add: lcm_pos_nat)
  moreover have "lcm a n dvd lcm a (Lcm (set (n # ns)))" unfolding tot by simp
  ultimately have "lcm a n \<le> lcm a (Lcm (set (n # ns)))" by (rule dvd_imp_le[rotated])
  with Cons.prems(3) have small: "lcm a n < 2 ^ 53" by simp
  from Cons.prems(1) small have "lcm_js (Num a) n = Return (Num (lcm a n))"
    by (intro lcm_js_eq) simp_all
  then have "reduce_lcm (Num a) (n # ns) = reduce_lcm (Num (lcm a n)) ns"
    by (simp del: lcm_js.simps)
  also from Cons.IH[OF pos] Cons.prems tot have "\<dots> = Return (Num (lcm (lcm a n) (Lcm (set ns))))"
    by simp
  finally show ?case by (simp add: lcm.assoc)
qed

lemma lcmAll_eq:
  "\<forall>n \<in> set ns. 0 < n \<Longrightarrow> Lcm (set ns) < 2 ^ 53 \<Longrightarrow> lcmAll ns = Return (Num (Lcm (set ns)))"
  by (simp add: lcmAll_def reduce_lcm_eq)

text \<open>
  Below a multiple \<open>M\<close> of \<open>k\<close>, every residue modulo \<open>k\<close> occurs \<open>M div k\<close> times. Below
  any other \<open>M\<close>, the residues less than \<open>M mod k\<close> occur once more than the others.
\<close>

lemma card_residue_class:
  fixes k M j :: nat
  assumes k: "0 < k" and d: "k dvd M" and j: "j < k"
  shows "card {c. c < M \<and> c mod k = j} = M div k"
proof -
  have "{c. c < M \<and> c mod k = j} = (\<lambda>q. q * k + j) ` {..<M div k}" (is "?L = ?R")
  proof (intro set_eqI iffI)
    fix c assume "c \<in> ?L"
    then have c: "c < M" "c mod k = j" by auto
    from c(1) d k have "c div k < M div k"
      by (metis div_less_iff_less_mult dvd_div_mult_self)
    moreover from c(2) have "c = c div k * k + j" by (metis div_mult_mod_eq)
    ultimately show "c \<in> ?R" by blast
  next
    fix c assume "c \<in> ?R"
    then obtain q where q: "q < M div k" "c = q * k + j" by auto
    from q(1) have "Suc q \<le> M div k" by simp
    then have "Suc q * k \<le> M div k * k" by (rule mult_le_mono1)
    with d have "Suc q * k \<le> M" by simp
    with j q(2) have "c < M" by simp
    moreover from q(2) j have "c mod k = j" by simp
    ultimately show "c \<in> ?L" by simp
  qed
  moreover have "inj_on (\<lambda>q. q * k + j) {..<M div k}"
    using k by (auto simp: inj_on_def)
  ultimately show ?thesis by (simp add: card_image)
qed

lemma card_residue_any:
  fixes k M j :: nat
  assumes k: "0 < k" and j: "j < k"
  shows "card {c. c < M \<and> c mod k = j} = M div k + (if j < M mod k then 1 else 0)"
proof -
  let ?q = "M div k"
  let ?A = "{c. c < ?q * k \<and> c mod k = j}"
  let ?B = "{c. ?q * k \<le> c \<and> c < M \<and> c mod k = j}"
  have M: "M = ?q * k + M mod k" by simp
  have split: "{c. c < M \<and> c mod k = j} = ?A \<union> ?B"
  proof -
    have le: "?q * k \<le> M" by simp
    have "c < M" if "c < ?q * k" for c using that le by (rule less_le_trans)
    then show ?thesis by auto
  qed
  have cA: "card ?A = ?q" using card_residue_class[OF k _ j, of "?q * k"] k by simp
  have B: "?B = (if j < M mod k then {?q * k + j} else {})"
  proof (intro set_eqI iffI)
    fix c assume "c \<in> ?B"
    then have c: "?q * k \<le> c" "c < M" "c mod k = j" by auto
    from c(1,2) k have "c div k = ?q"
      by (metis div_le_mono div_mult_self_is_m le_antisym less_imp_le_nat)
    with c(3) have e: "c = ?q * k + j" by (metis div_mult_mod_eq)
    with c(2) M have "j < M mod k" by linarith
    with e show "c \<in> (if j < M mod k then {?q * k + j} else {})" by simp
  next
    fix c assume "c \<in> (if j < M mod k then {?q * k + j} else {})"
    then have jr: "j < M mod k" and e: "c = ?q * k + j" by (auto split: if_splits)
    from jr M e have "c < M" by linarith
    with e j show "c \<in> ?B" by simp
  qed
  have "finite ?A" "finite ?B" by auto
  moreover have "?A \<inter> ?B = {}" by auto
  ultimately have "card (?A \<union> ?B) = card ?A + card ?B" by (rule card_Un_disjoint)
  with split cA B show ?thesis by simp
qed

text \<open>
  For a grammar object in which every nonterminal has at least one production and the
  least common multiple \<open>M\<close> of the numbers of productions is below \<open>2^53\<close>:
  \<open>getGrammarLCM\<close> returns \<open>M\<close>, \<open>M \<ge> 1\<close>, the constructor stores it as \<open>maxcodon\<close>, and
  for a nonterminal with \<open>k\<close> productions each index \<open>j < k\<close> is chosen by exactly
  \<open>M / k\<close> of the codons \<open>c < M\<close> under \<open>c % k\<close>.
\<close>

lemma getGrammarLCM_uniform_below:
  assumes "\<forall>(lhs, rhs) \<in> set obj. rhs \<noteq> []"
    and "Lcm ((\<lambda>(lhs, rhs). length rhs) ` set obj) < 2 ^ 53"
  shows "\<exists>M. getGrammarLCM obj = Return (Num M) \<and>
             M = Lcm ((\<lambda>(lhs, rhs). length rhs) ` set obj) \<and> 1 \<le> M \<and>
             (\<exists>G. new_GE fit start obj ps ng pm tr md gl = Return G \<and> maxcodon G = Num M) \<and>
             (\<forall>(lhs, rhs) \<in> set obj. \<forall>j < length rhs.
                card {c. c < M \<and> jsmod (Num c) (Num (length rhs)) = Num j} = M div length rhs)"
proof -
  let ?ns = "map (\<lambda>(lhs, rhs). length rhs) obj"
  let ?M = "Lcm (set ?ns)"
  have e: "set ?ns = (\<lambda>(lhs, rhs). length rhs) ` set obj" by simp
  from assms(1) have pos: "\<forall>n \<in> set ?ns. 0 < n" by auto
  from assms(2) have small: "?M < 2 ^ 53" unfolding e .
  have a: "getGrammarLCM obj = Return (Num ?M)"
    unfolding getGrammarLCM_def by (rule lcmAll_eq[OF pos small])
  have b: "1 \<le> ?M" using Lcm_lengths_pos[OF pos] by simp
  have c: "\<exists>G. new_GE fit start obj ps ng pm tr md gl = Return G \<and> maxcodon G = Num ?M"
    by (simp add: new_GE_def loadGrammar_def a)
  have d: "card {c. c < ?M \<and> jsmod (Num c) (Num (length rhs)) = Num j} = ?M div length rhs"
    if "(lhs, rhs) \<in> set obj" "j < length rhs" for lhs rhs j
  proof -
    from that(2) have k: "0 < length rhs" by (cases rhs) simp_all
    from that(1) have "length rhs \<in> set ?ns" by force
    then have dv: "length rhs dvd ?M" by (rule dvd_Lcm)
    from k have "{c. c < ?M \<and> jsmod (Num c) (Num (length rhs)) = Num j} =
                 {c. c < ?M \<and> c mod length rhs = j}" by auto
    with card_residue_class[OF k dv that(2)] show ?thesis by simp
  qed
  from a b c d show ?thesis unfolding e by blast
qed

text \<open>
  The grammar of the source's header has rules of 3, 2, 2 and 1 productions: the
  modulus is 6, and of the codons below 6 exactly two choose the second production of
  \<open><e>\<close>.
\<close>

lemma sr_rules_modulus:
  "getGrammarLCM sr_rules = Return (Num 6) \<and>
   card {c. c < 6 \<and> jsmod (Num c) (Num 3) = Num 1} = 2"
proof -
  have v: "getGrammarLCM sr_rules = Return (Num 6)" by code_simp
  have "{c. c < 6 \<and> jsmod (Num c) (Num 3) = Num 1} = {c. c < 6 \<and> c mod 3 = (1::nat)}"
    by auto
  with card_residue_class[of 3 6 1] v show ?thesis by simp
qed

text \<open>
  Claim C7, at a failing input. \<open>getGrammarLCM\<close> is to return the least common multiple
  of the numbers of productions (its comment says so), and \<open>lcm\<close> computes
  \<open>a / gcd (a, b) * b\<close> in floating point. For the grammar \<open>wide_rules\<close> the running
  value is exact up to \<open>456375395290815\<close>; the last product, by 43, is
  \<open>19624141997505045\<close>, above \<open>2^53\<close>, and is rounded to \<open>19624141997505044\<close>. That is
  the modulus the constructor stores. It is not the least common multiple, it is a
  multiple of none of the numbers of productions, and of the codons below it one more
  selects the first of the 9 productions of \<open><a>\<close> than selects the last.
\<close>

theorem getGrammarLCM_rounded:
  "getGrammarLCM wide_rules = Return (Num 19624141997505044) \<and>
   (\<exists>G. new_GE None ''<a>'' wide_rules 2 5 1 (Double False 0 0) 6 4 = Return G \<and>
        maxcodon G = Num 19624141997505044) \<and>
   Lcm ((\<lambda>(lhs, rhs). length rhs) ` set wide_rules) = 19624141997505045 \<and>
   filter (\<lambda>(lhs, rhs). length rhs dvd 19624141997505044) wide_rules = [] \<and>
   map_of wide_rules ''<a>'' = Some (replicate 9 [''x'']) \<and>
   card {c. c < 19624141997505044 \<and> jsmod (Num c) (Num 9) = Num 0} = 2180460221945005 \<and>
   card {c. c < 19624141997505044 \<and> jsmod (Num c) (Num 9) = Num 8} = 2180460221945004"
proof -
  have a: "getGrammarLCM wide_rules = Return (Num 19624141997505044)"
    by (simp add: getGrammarLCM_def lcmAll_def wide_rules_def gcd_js.simps to_double_def
        round_double_def round_to_def bit_length.simps Let_def)
  have b: "\<exists>G. new_GE None ''<a>'' wide_rules 2 5 1 (Double False 0 0) 6 4 = Return G \<and>
             maxcodon G = Num 19624141997505044"
    by (simp add: new_GE_def loadGrammar_def a)
  have c: "Lcm ((\<lambda>(lhs, rhs). length rhs) ` set wide_rules) = 19624141997505045"
    by (simp add: wide_rules_def lcm_nat_def gcd_js_eq[symmetric] gcd_js.simps)
  have d: "filter (\<lambda>(lhs, rhs). length rhs dvd 19624141997505044) wide_rules = []"
    by (simp add: wide_rules_def)
  have e: "map_of wide_rules ''<a>'' = Some (replicate 9 [''x''])"
    by (simp add: wide_rules_def)
  have s: "{c. c < M \<and> jsmod (Num c) (Num 9) = Num j} = {c. c < M \<and> c mod 9 = j}" for M j
    by auto
  have f: "card {c. c < 19624141997505044 \<and> jsmod (Num c) (Num 9) = Num 0} = 2180460221945005"
    unfolding s by (subst card_residue_any) simp_all
  have g: "card {c. c < 19624141997505044 \<and> jsmod (Num c) (Num 9) = Num 8} = 2180460221945004"
    unfolding s by (subst card_residue_any) simp_all
  from a b c d e f g show ?thesis by (intro conjI)
qed

section \<open>Crossover\<close>

lemma js_slice_prefix: "js_slice xs 0 (int i) = take i xs"
  by (simp add: js_slice_def Let_def min_def)

lemma js_slice_suffix: "js_slice xs (int i) (int (length xs)) = drop i xs"
  by (simp add: js_slice_def Let_def min_def)

lemma crossover_eq:
  assumes "c = min c0 c1"
  shows "crossover R st g0 g1 c0 c1 =
     (let i = (if c = 0 then 0 else R (drawn st) mod c)
      in ((take i g0 @ drop i g1, take i g1 @ drop i g0), st\<lparr>drawn := Suc (drawn st)\<rparr>))"
proof -
  have r: "randrange R st (Num c) =
             (if c = 0 then NaN else Num (R (drawn st) mod c), st\<lparr>drawn := Suc (drawn st)\<rparr>)"
    by (simp add: randrange_def mt_int_def)
  have p0: "js_slice xs 0 0 = take 0 xs" for xs :: "'a list"
    using js_slice_prefix[of xs 0] by simp
  have s0: "js_slice xs 0 (int (length xs)) = drop 0 xs" for xs :: "'a list"
    using js_slice_suffix[of xs 0] by simp
  show ?thesis
  proof (cases "c = 0")
    case True
    then show ?thesis
      unfolding crossover_def Let_def assms[symmetric] r by (simp add: p0 s0)
  next
    case False
    then show ?thesis
      unfolding crossover_def Let_def assms[symmetric] r
      by (simp add: js_slice_prefix js_slice_suffix)
  qed
qed

text \<open>
  Claim C8. For two genomes of equal length both children have that length. There is
  one cut index \<open>i\<close>: with \<open>x\<close> the number that \<open>mt.int()\<close> returns, it is
  \<open>x % min c0 c1\<close>, an index below \<open>min c0 c1\<close>, when \<open>min c0 c1\<close> is positive; when
  \<open>min c0 c1\<close> is \<open>0\<close> the remainder is \<open>NaN\<close> and the slices take it as \<open>0\<close>. The first
  child is the first genome up to \<open>i\<close> followed by the second from \<open>i\<close> on, the second
  child the other way round, and exchanging the parents exchanges the children. Every
  index below \<open>min c0 c1\<close> is the cut for some draw. With \<open>min c0 c1 = 0\<close> each child is
  the whole genome of the other parent.
\<close>

theorem crossover_children:
  assumes "length g0 = length g1"
  shows "length (fst (fst (crossover R st g0 g1 c0 c1))) = length g0 \<and>
         length (snd (fst (crossover R st g0 g1 c0 c1))) = length g0 \<and>
         (let x = fst (mt_int R st);
              i = (if min c0 c1 = 0 then 0 else x mod min c0 c1)
          in (0 < min c0 c1 \<longrightarrow> i < min c0 c1) \<and>
             crossover R st g0 g1 c0 c1 =
               ((take i g0 @ drop i g1, take i g1 @ drop i g0), snd (mt_int R st)) \<and>
             crossover R st g1 g0 c1 c0 =
               ((take i g1 @ drop i g0, take i g0 @ drop i g1), snd (mt_int R st))) \<and>
         (\<forall>i < min c0 c1.
            crossover (\<lambda>n. i) st g0 g1 c0 c1 =
              ((take i g0 @ drop i g1, take i g1 @ drop i g0), st\<lparr>drawn := Suc (drawn st)\<rparr>)) \<and>
         (min c0 c1 = 0 \<longrightarrow> fst (crossover R st g0 g1 c0 c1) = (g1, g0))"
proof -
  define c where "c = min c0 c1"
  define i where "i = (if c = 0 then 0 else R (drawn st) mod c)"
  define st' where "st' = st\<lparr>drawn := Suc (drawn st)\<rparr>"
  have c': "c = min c1 c0" by (simp add: c_def min.commute)
  have m: "mt_int R st = (R (drawn st), st')" by (simp add: mt_int_def st'_def)
  have e1: "crossover R st g0 g1 c0 c1 = ((take i g0 @ drop i g1, take i g1 @ drop i g0), st')"
    using crossover_eq[OF c_def, of R st g0 g1] by (simp add: Let_def i_def st'_def)
  have e2: "crossover R st g1 g0 c1 c0 = ((take i g1 @ drop i g0, take i g0 @ drop i g1), st')"
    using crossover_eq[OF c', of R st g1 g0] by (simp add: Let_def i_def st'_def)
  have l1: "length (fst (fst (crossover R st g0 g1 c0 c1))) = length g0"
    using assms by (simp add: e1)
  have l2: "length (snd (fst (crossover R st g0 g1 c0 c1))) = length g0"
    using assms by (simp add: e1)
  have b: "0 < c \<longrightarrow> i < c" by (simp add: i_def)
  have every: "\<forall>j < c. crossover (\<lambda>n. j) st g0 g1 c0 c1 =
                 ((take j g0 @ drop j g1, take j g1 @ drop j g0), st')"
    using crossover_eq[OF c_def, of _ st g0 g1] by (simp add: Let_def st'_def)
  have z: "c = 0 \<longrightarrow> fst (crossover R st g0 g1 c0 c1) = (g1, g0)"
    by (simp add: e1 i_def)
  from l1 l2 b e1 e2 every z show ?thesis
    unfolding c_def[symmetric] Let_def i_def[symmetric] st'_def[symmetric] m fst_conv snd_conv
    by (intro conjI)
qed

text \<open>
  The genomes \<open>[2, 0, 0, 0]\<close> and \<open>[1, 1, 1, 0]\<close> with 2 and 3 used codons, and the draw
  5: the cut is at index 1.
\<close>

theorem crossover_children_witness:
  "length [Num 2, Num 0, Num 0, Num 0] = length [Num 1, Num 1, Num 1, Num 0] \<and>
   crossover (\<lambda>n. 5) initial_state [Num 2, Num 0, Num 0, Num 0] [Num 1, Num 1, Num 1, Num 0] 2 3 =
     (([Num 2, Num 1, Num 1, Num 0], [Num 1, Num 0, Num 0, Num 0]), initial_state\<lparr>drawn := 1\<rparr>) \<and>
   crossover (\<lambda>n. 5) initial_state [Num 1, Num 1, Num 1, Num 0] [Num 2, Num 0, Num 0, Num 0] 3 2 =
     (([Num 1, Num 0, Num 0, Num 0], [Num 2, Num 1, Num 1, Num 0]), initial_state\<lparr>drawn := 1\<rparr>)"
proof -
  have h: "length [Num 2, Num 0, Num 0, Num 0] = length [Num 1, Num 1, Num 1, Num 0]"
    by simp
  from crossover_children[OF h, of "\<lambda>n. 5" initial_state 2 3] h show ?thesis
    by (simp add: Let_def mt_int_def initial_state_def)
qed

section \<open>Selection\<close>

lemma ex_init: "init ex_ge ex_R initial_state = Some (None, ex_S1)"
  by code_simp

text \<open>
  Claim C9, at a failing input. The filter of \<open>direct_selection\<close> keeps the individuals
  whose fitness slot is truthy, although its comment says \<open>fitness > 0\<close>. After the fitness
  values \<open>[-1, 0]\<close> have been assigned to the population of \<open>ex_S1\<close>, the pool is the
  first individual alone, whose fitness is \<open>-1\<close>: not strictly positive, and not the
  whole population either.
\<close>

theorem direct_selection_takes_negative:
  "(case assign_fitvals [- 1, 0] [0..<popsize ex_ge] ex_S1 of
      (e, st) \<Rightarrow> e = None \<and> direct_selection st = Return [Some 0] \<and>
                 fitness (heap st ! 0) = FNum (- 1))"
  by code_simp

subsection \<open>Truncation\<close>

text \<open>The engine \<open>trunc_ge\<close> as the constructor builds it, and its state after \<open>init\<close>.\<close>

lemma trunc_ge_constructed:
  "new_GE (Some m) ''<e>'' ex_rules 4 5 1 (Double False 1 (- 2)) 6 6 = Return (trunc_ge m)"
  by (simp add: new_GE_def ex_grammar_loaded trunc_ge_def ex_ge_def ex_grammar_def)

lemma sel_init: "init (trunc_ge True) sel_R initial_state = Some (None, sel_state0)"
  by code_simp

text \<open>
  \<open>math_floor\<close> is the floor of the number, and below \<open>2^53\<close> the product is exact. It
  is not exact in general: \<open>50 * 0.3\<close> is rounded to 15, while the exact product of 50
  and the double \<open>0.3\<close> is less than 15, with floor 14.
\<close>

lemma math_floor_eq: "math_floor d = \<lfloor>double_value d\<rfloor>"
proof -
  define v where "v = (if negative d then - int (significand d) else int (significand d))"
  have val: "double_value d = of_int v * 2 powr real_of_int (exponent d)"
    by (simp add: double_value_def v_def)
  show ?thesis
  proof (cases "0 \<le> exponent d")
    case True
    then have "2 powr real_of_int (exponent d) = 2 ^ nat (exponent d)"
      by (simp add: powr_real_of_int)
    then have "double_value d = of_int (v * 2 ^ nat (exponent d))" by (simp add: val)
    then have "\<lfloor>double_value d\<rfloor> = v * 2 ^ nat (exponent d)" by (simp only: floor_of_int)
    with True show ?thesis by (simp add: math_floor_def v_def Let_def)
  next
    case False
    then have "2 powr real_of_int (exponent d) = inverse (2 ^ nat (- exponent d))"
      by (simp add: powr_real_of_int)
    then have "double_value d = of_int v / of_int (2 ^ nat (- exponent d))"
      by (simp add: val divide_inverse)
    then have "\<lfloor>double_value d\<rfloor> = v div 2 ^ nat (- exponent d)"
      by (simp only: floor_divide_of_int_eq)
    with False show ?thesis by (simp add: math_floor_def v_def Let_def)
  qed
qed

lemma jsmul_exact:
  assumes "n * significand d < 2 ^ 53"
  shows "double_value (jsmul n d) = real n * double_value d"
  using round_double_exact[OF assms] by (simp add: jsmul_def double_value_def)

lemma math_floor_nonneg: "\<not> negative d \<Longrightarrow> 0 \<le> math_floor d"
  by (simp add: math_floor_def Let_def pos_imp_zdiv_nonneg_iff)

lemma jsmul_negative: "negative (jsmul n d) = negative d"
  by (simp add: jsmul_def)

lemma thirty_percent:
  "math_floor (jsmul 50 (Double False 5404319552844595 (- 54))) = 15 \<and>
   \<lfloor>50 * double_value (Double False 5404319552844595 (- 54))\<rfloor> = 14"
proof -
  have a: "math_floor (jsmul 50 (Double False 5404319552844595 (- 54))) = 15"
    by (simp add: jsmul_def math_floor_def round_double_def round_to_def bit_length.simps Let_def)
  have "50 * double_value (Double False 5404319552844595 (- 54)) =
        double_value (Double False 270215977642229750 (- 54))"
    by (simp add: double_value_def)
  also have "\<lfloor>\<dots>\<rfloor> = math_floor (Double False 270215977642229750 (- 54))"
    by (simp only: math_floor_eq)
  also have "\<dots> = 14" by (simp add: math_floor_def)
  finally show ?thesis using a by simp
qed

text \<open>The slice of \<open>truncation_selection\<close>, index by index.\<close>

lemma take_drop_nth: "l + k \<le> length xs \<Longrightarrow> take k (drop l xs) = map (nth xs) [l..<l + k]"
  by (rule nth_equalityI) auto

lemma js_slice_nth:
  assumes "0 \<le> lo"
  shows "js_slice xs lo (int (length xs) - 1) = map (nth xs) [nat lo..<length xs - 1]"
proof (cases "nat lo < length xs - 1")
  case True
  then have "js_slice xs lo (int (length xs) - 1) =
             take (length xs - 1 - nat lo) (drop (nat lo) xs)"
    using assms by (auto simp: js_slice_def Let_def min_def max_def nat_diff_distrib)
  also have "\<dots> = map (nth xs) [nat lo..<nat lo + (length xs - 1 - nat lo)]"
    using True by (intro take_drop_nth) simp
  finally show ?thesis using True by simp
next
  case False
  then have "js_slice xs lo (int (length xs) - 1) = []"
    using assms by (cases "xs = []") (auto simp: js_slice_def Let_def min_def max_def)
  with False show ?thesis by simp
qed

lemma sorted_last_max:
  assumes "sorted (map f xs)" "i < length xs"
  shows "f (xs ! i) \<le> f (xs ! (length xs - 1))"
proof -
  from assms have "map f xs ! i \<le> map f xs ! (length xs - 1)"
    by (intro sorted_nth_mono) auto
  with assms(2) show ?thesis by simp
qed

text \<open>
  The sort of a population of \<open>popsize\<close> individuals with numeric fitness permutes it;
  the result is ascending in the fitness when maximising and ascending in the negated
  fitness when minimising, so the last index holds an individual no other is better
  than.
\<close>

lemma sort_pop_sorted:
  assumes valid: "\<forall>x \<in> set (pop st). \<exists>a r. x = Some a \<and> fitness (heap st ! a) = FNum r"
    and len: "length (pop st) = popsize G"
  shows "\<exists>pop'. sort_pop G st = (None, st\<lparr>pop := pop'\<rparr>) \<and> mset pop' = mset (pop st) \<and>
           (if maximise G then sorted (map (num_fitness st) pop')
            else sorted (map (\<lambda>x. - num_fitness st x) pop')) \<and>
           (\<forall>i < popsize G.
              if maximise G
              then num_fitness st (pop' ! i) \<le> num_fitness st (pop' ! (popsize G - 1))
              else num_fitness st (pop' ! (popsize G - 1)) \<le> num_fitness st (pop' ! i))"
proof -
  let ?kmax = "\<lambda>x. sort_key_max (fitness (heap st ! the x))"
  let ?kmin = "\<lambda>x. sort_key_min (fitness (heap st ! the x))"
  let ?pop' = "if maximise G then sort_key ?kmax (pop st) else sort_key ?kmin (pop st)"
  from valid have nonone: "None \<notin> set (pop st)" by auto
  then have a: "sort_pop G st = (None, st\<lparr>pop := ?pop'\<rparr>)" by (simp add: sort_pop_def)
  have b: "mset ?pop' = mset (pop st)" by simp
  have kmax: "?kmax x = (0, num_fitness st x)" if "x \<in> set (pop st)" for x
    using valid that by (auto simp: num_fitness_def)
  have kmin: "?kmin x = (0, - num_fitness st x)" if "x \<in> set (pop st)" for x
    using valid that by (auto simp: num_fitness_def)
  have c: "if maximise G then sorted (map (num_fitness st) ?pop')
            else sorted (map (\<lambda>x. - num_fitness st x) ?pop')"
  proof (cases "maximise G")
    case True
    have "sorted (map ?kmax (sort_key ?kmax (pop st)))" by (rule sorted_sort_key)
    moreover have "map ?kmax (sort_key ?kmax (pop st)) =
                   map (\<lambda>x. (0::nat, num_fitness st x)) (sort_key ?kmax (pop st))"
      by (rule map_cong[OF refl]) (simp add: kmax)
    ultimately have "sorted (map (\<lambda>x. (0::nat, num_fitness st x)) (sort_key ?kmax (pop st)))"
      by simp
    then have "sorted (map (num_fitness st) (sort_key ?kmax (pop st)))"
      by (simp add: sorted_map sorted_wrt_iff_nth_less)
    with True show ?thesis by simp
  next
    case False
    have "sorted (map ?kmin (sort_key ?kmin (pop st)))" by (rule sorted_sort_key)
    moreover have "map ?kmin (sort_key ?kmin (pop st)) =
                   map (\<lambda>x. (0::nat, - num_fitness st x)) (sort_key ?kmin (pop st))"
      by (rule map_cong[OF refl]) (simp add: kmin)
    ultimately have "sorted (map (\<lambda>x. (0::nat, - num_fitness st x)) (sort_key ?kmin (pop st)))"
      by simp
    then have "sorted (map (\<lambda>x. - num_fitness st x) (sort_key ?kmin (pop st)))"
      by (simp add: sorted_map sorted_wrt_iff_nth_less)
    with False show ?thesis by simp
  qed
  have len': "length ?pop' = popsize G" using len by simp
  have d: "\<forall>i < popsize G.
              if maximise G
              then num_fitness st (?pop' ! i) \<le> num_fitness st (?pop' ! (popsize G - 1))
              else num_fitness st (?pop' ! (popsize G - 1)) \<le> num_fitness st (?pop' ! i)"
  proof (intro allI impI)
    fix i assume i: "i < popsize G"
    show "if maximise G
          then num_fitness st (?pop' ! i) \<le> num_fitness st (?pop' ! (popsize G - 1))
          else num_fitness st (?pop' ! (popsize G - 1)) \<le> num_fitness st (?pop' ! i)"
    proof (cases "maximise G")
      case True
      with c have "sorted (map (num_fitness st) ?pop')" by simp
      from sorted_last_max[OF this] i len' True show ?thesis by simp
    next
      case False
      with c have "sorted (map (\<lambda>x. - num_fitness st x) ?pop')" by simp
      from sorted_last_max[OF this, of i] i len' False show ?thesis by simp
    qed
  qed
  show ?thesis
    apply (rule exI[of _ ?pop'])
    apply (intro conjI)
       apply (rule a)
      apply (rule b)
     apply (rule c)
    apply (rule d)
    done
qed


lemma truncation_selection_nth:
  assumes len: "length (pop st) = popsize G" and tr: "\<not> negative (trunc G)"
  shows "truncation_selection G st =
           map (\<lambda>i. pop st ! i)
             [nat (math_floor (jsmul (popsize G) (trunc G)))..<popsize G - 1]"
proof -
  from tr have "0 \<le> math_floor (jsmul (popsize G) (trunc G))"
    by (intro math_floor_nonneg) (simp add: jsmul_negative)
  from js_slice_nth[OF this, of "pop st"] len show ?thesis
    by (simp add: truncation_selection_def)
qed

text \<open>
  The two loops of \<open>tell\<close> on a population of individuals: the first returns with a
  number in the fitness slot of every individual it was given a number for, and changes
  nothing but fitness slots; the second changes nothing but \<open>best_ever\<close>.
\<close>

lemma assign_fitvals_numbers:
  assumes "\<forall>i \<in> set is. i < length (pop st) \<and> i < length fitvals"
    and "\<forall>x \<in> set (pop st). \<exists>a. x = Some a \<and> a < length (heap st)"
  shows "\<exists>h. assign_fitvals fitvals is st = (None, st\<lparr>heap := h\<rparr>) \<and>
             length h = length (heap st) \<and>
             (\<forall>a < length h.
                (\<exists>r. fitness (heap st ! a) = FNum r) \<or> (\<exists>i \<in> set is. pop st ! i = Some a) \<longrightarrow>
                (\<exists>r. fitness (h ! a) = FNum r))"
  using assms
proof (induction "is" arbitrary: st)
  case Nil
  have "st\<lparr>heap := heap st\<rparr> = st" by simp
  then show ?case by (intro exI[of _ "heap st"]) simp
next
  case (Cons i "is")
  from Cons.prems(1) have i: "i < length (pop st)" "i < length fitvals" by simp_all
  from i(1) have "pop st ! i \<in> set (pop st)" by simp
  with Cons.prems(2) obtain a where a: "pop st ! i = Some a" "a < length (heap st)" by blast
  define st' where
    "st' = st\<lparr>heap := (heap st)[a := (heap st ! a)\<lparr>fitness := fitval_at fitvals i\<rparr>]\<rparr>"
  have pop': "pop st' = pop st" and len': "length (heap st') = length (heap st)"
    by (simp_all add: st'_def)
  from i a have step: "assign_fitvals fitvals (i # is) st = assign_fitvals fitvals is st'"
    by (simp add: pop_at_def st'_def)
  from Cons.prems pop' len' have
    p1: "\<forall>i \<in> set is. i < length (pop st') \<and> i < length fitvals" and
    p2: "\<forall>x \<in> set (pop st'). \<exists>a. x = Some a \<and> a < length (heap st')" by simp_all
  from Cons.IH[OF p1 p2] obtain h where
    h: "assign_fitvals fitvals is st' = (None, st'\<lparr>heap := h\<rparr>)"
       "length h = length (heap st')"
       "\<forall>b < length h.
          (\<exists>r. fitness (heap st' ! b) = FNum r) \<or> (\<exists>j \<in> set is. pop st' ! j = Some b) \<longrightarrow>
          (\<exists>r. fitness (h ! b) = FNum r)" by blast
  have e: "st'\<lparr>heap := h\<rparr> = st\<lparr>heap := h\<rparr>" by (simp add: st'_def)
  have new: "\<exists>r. fitness (heap st' ! a) = FNum r"
    using a(2) i(2) by (simp add: st'_def fitval_at_def)
  have old: "fitness (heap st' ! b) = fitness (heap st ! b)" if "b \<noteq> a" for b
    using that by (simp add: st'_def)
  have "\<exists>r. fitness (h ! b) = FNum r"
    if b: "b < length h"
      and c: "(\<exists>r. fitness (heap st ! b) = FNum r) \<or> (\<exists>j \<in> set (i # is). pop st ! j = Some b)"
    for b
  proof (cases "b = a")
    case True
    with new h(3) b show ?thesis by blast
  next
    case False
    from c False a(1) have
      "(\<exists>r. fitness (heap st ! b) = FNum r) \<or> (\<exists>j \<in> set is. pop st ! j = Some b)" by auto
    with old[OF False] pop' have
      "(\<exists>r. fitness (heap st' ! b) = FNum r) \<or> (\<exists>j \<in> set is. pop st' ! j = Some b)" by simp
    with h(3) b show ?thesis by blast
  qed
  with h(1,2) len' step e show ?case by (intro exI[of _ h]) simp
qed

lemma update_best_state:
  assumes "\<forall>i \<in> set is. i < length (pop st)" "None \<notin> set (pop st)" "best_ever st \<noteq> None"
  shows "\<exists>b. update_best G is st = (None, st\<lparr>best_ever := Some b\<rparr>)"
  using assms
proof (induction "is" arbitrary: st)
  case Nil
  then obtain b where "best_ever st = Some b" by auto
  then have "st\<lparr>best_ever := Some b\<rparr> = st" by simp
  then show ?case by (intro exI[of _ b]) simp
next
  case (Cons i "is")
  from Cons.prems(1) have i: "i < length (pop st)" by simp
  then have "pop st ! i \<in> set (pop st)" by simp
  with Cons.prems(2) obtain a where a: "pop st ! i = Some a" by (cases "pop st ! i") auto
  from Cons.prems(3) obtain b where b: "best_ever st = Some b" by auto
  show ?case
  proof (cases "(maximise G \<and> js_ge (fitness (heap st ! a)) (fitness (heap st ! b))) \<or>
                (\<not> maximise G \<and> js_le (fitness (heap st ! a)) (fitness (heap st ! b)))")
    case True
    with i a b have step: "update_best G (i # is) st = update_best G is (st\<lparr>best_ever := Some a\<rparr>)"
      by (simp add: pop_at_def)
    from Cons.IH[of "st\<lparr>best_ever := Some a\<rparr>"] Cons.prems obtain b' where
      "update_best G is (st\<lparr>best_ever := Some a\<rparr>) =
         (None, st\<lparr>best_ever := Some a\<rparr>\<lparr>best_ever := Some b'\<rparr>)" by auto
    with step show ?thesis by (intro exI[of _ b']) simp
  next
    case False
    with i a b have step: "update_best G (i # is) st = update_best G is st"
      by (auto simp: pop_at_def)
    from Cons.IH[of st] Cons.prems obtain b' where
      "update_best G is st = (None, st\<lparr>best_ever := Some b'\<rparr>)" by auto
    with step show ?thesis by (intro exI[of _ b']) simp
  qed
qed


text \<open>
  Claim C4, as the code has it. The claim has the two directions exchanged: the code
  sorts by fitness ascending when \<^emph>\<open>maximising\<close> and by negated fitness ascending when
  \<^emph>\<open>minimising\<close>. Let the engine be autonomous (not interactive), with a population of
  \<open>popsize\<close> individuals and a \<open>best_ever\<close> (as \<open>init\<close> leaves them), let \<open>tell\<close> be given
  a fitness number for every individual, and let \<open>trunc\<close> not be negative. Then the two
  loops of \<open>tell\<close> return, in a state \<open>st2\<close>; \<open>tell\<close> sorts the population of \<open>st2\<close> to a
  permutation \<open>pop'\<close> that is ascending in the fitness when maximising and ascending in
  the negated fitness when minimising, so that index \<open>popsize - 1\<close> holds an individual
  no other is better than; the parents it selects are exactly the elements of \<open>pop'\<close> at
  the indices from \<open>Math.floor(popsize * trunc)\<close> (the product as floating point rounds
  it) up to \<open>popsize - 2\<close>; \<open>tell\<close> goes on with \<open>create_new_pop\<close> on these parents and
  the sorted population; and \<open>create_new_pop\<close> starts the new population with the
  element at index \<open>popsize - 1\<close>.
\<close>

theorem tell_truncation:
  assumes auto: "\<not> interactive G"
    and len: "length (pop st) = popsize G"
    and refs: "\<forall>x \<in> set (pop st). \<exists>a. x = Some a \<and> a < length (heap st)"
    and best: "best_ever st \<noteq> None"
    and fv: "popsize G \<le> length fitvals"
    and tr: "\<not> negative (trunc G)"
  shows "\<exists>st1 st2 pop' pool.
           assign_fitvals fitvals [0..<popsize G] st = (None, st1) \<and>
           update_best G [0..<popsize G] st1 = (None, st2) \<and>
           sort_pop G st2 = (None, st2\<lparr>pop := pop'\<rparr>) \<and>
           mset pop' = mset (pop st) \<and>
           (if maximise G then sorted (map (num_fitness st2) pop')
            else sorted (map (\<lambda>x. - num_fitness st2 x) pop')) \<and>
           (\<forall>i < popsize G.
              if maximise G
              then num_fitness st2 (pop' ! i) \<le> num_fitness st2 (pop' ! (popsize G - 1))
              else num_fitness st2 (pop' ! (popsize G - 1)) \<le> num_fitness st2 (pop' ! i)) \<and>
           pool = map (\<lambda>i. pop' ! i)
                    [nat (math_floor (jsmul (popsize G) (trunc G)))..<popsize G - 1] \<and>
           select_parents G st2 = Return (pool, st2\<lparr>pop := pop'\<rparr>) \<and>
           tell G R st fitvals =
             (case create_new_pop G R pool (st2\<lparr>pop := pop'\<rparr>) of
                None \<Rightarrow> None
              | Some (Some e, st4, newpop) \<Rightarrow> Some (Some e, st4)
              | Some (None, st4, newpop) \<Rightarrow> Some (None, st4\<lparr>pop := newpop\<rparr>)) \<and>
           (0 < popsize G \<longrightarrow>
              create_new_pop G R pool (st2\<lparr>pop := pop'\<rparr>) =
                breed_loop G R pool (st2\<lparr>pop := pop'\<rparr>) [pop' ! (popsize G - 1)] 0)"
proof -
  let ?is = "[0..<popsize G]"
  from len fv have idx: "\<forall>i \<in> set ?is. i < length (pop st) \<and> i < length fitvals" by simp
  from assign_fitvals_numbers[OF idx refs] obtain h where
    h: "assign_fitvals fitvals ?is st = (None, st\<lparr>heap := h\<rparr>)" "length h = length (heap st)"
       "\<forall>a < length h.
          (\<exists>r. fitness (heap st ! a) = FNum r) \<or> (\<exists>i \<in> set ?is. pop st ! i = Some a) \<longrightarrow>
          (\<exists>r. fitness (h ! a) = FNum r)" by blast
  define st1 where "st1 = st\<lparr>heap := h\<rparr>"
  have a1: "assign_fitvals fitvals ?is st = (None, st1)" by (simp add: h(1) st1_def)
  from refs have nonone: "None \<notin> set (pop st1)" by (auto simp: st1_def)
  from len have idx1: "\<forall>i \<in> set ?is. i < length (pop st1)" by (simp add: st1_def)
  from best have best1: "best_ever st1 \<noteq> None" by (simp add: st1_def)
  from update_best_state[OF idx1 nonone best1] obtain b where
    b: "update_best G ?is st1 = (None, st1\<lparr>best_ever := Some b\<rparr>)" by blast
  define st2 where "st2 = st1\<lparr>best_ever := Some b\<rparr>"
  have a2: "update_best G ?is st1 = (None, st2)" by (simp add: b st2_def)
  have pop2: "pop st2 = pop st" and heap2: "heap st2 = h" and best2: "best_ever st2 \<noteq> None"
    by (simp_all add: st2_def st1_def)
  have valid: "\<forall>x \<in> set (pop st2). \<exists>a r. x = Some a \<and> fitness (heap st2 ! a) = FNum r"
  proof
    fix x assume "x \<in> set (pop st2)"
    with pop2 have x: "x \<in> set (pop st)" by simp
    with refs obtain a where a: "x = Some a" "a < length (heap st)" by blast
    from x obtain i where i: "i < length (pop st)" "pop st ! i = x"
      by (auto simp: in_set_conv_nth)
    with len a(1) have "\<exists>i \<in> set ?is. pop st ! i = Some a" by auto
    with h(2,3) a(2) have "\<exists>r. fitness (h ! a) = FNum r" by simp
    with a(1) heap2 show "\<exists>a r. x = Some a \<and> fitness (heap st2 ! a) = FNum r" by simp
  qed
  from len pop2 have len2: "length (pop st2) = popsize G" by simp
  from sort_pop_sorted[OF valid len2] obtain pop' where
    s: "sort_pop G st2 = (None, st2\<lparr>pop := pop'\<rparr>)" and
    m: "mset pop' = mset (pop st2)" and
    o: "if maximise G then sorted (map (num_fitness st2) pop')
        else sorted (map (\<lambda>x. - num_fitness st2 x) pop')" and
    l: "\<forall>i < popsize G.
          if maximise G
          then num_fitness st2 (pop' ! i) \<le> num_fitness st2 (pop' ! (popsize G - 1))
          else num_fitness st2 (pop' ! (popsize G - 1)) \<le> num_fitness st2 (pop' ! i)"
    by blast
  define st3 where "st3 = st2\<lparr>pop := pop'\<rparr>"
  from m have "length pop' = length (pop st2)" by (rule mset_eq_length)
  with len2 have len3: "length (pop st3) = popsize G" by (simp add: st3_def)
  define pool where
    "pool = map (\<lambda>i. pop' ! i) [nat (math_floor (jsmul (popsize G) (trunc G)))..<popsize G - 1]"
  have t: "truncation_selection G st3 = pool"
    using truncation_selection_nth[OF len3 tr] by (simp add: pool_def st3_def)
  have sel: "select_parents G st2 = Return (pool, st3)"
    using auto s t by (simp add: select_parents_def st3_def)
  have tl: "tell G R st fitvals =
             (case create_new_pop G R pool st3 of
                None \<Rightarrow> None
              | Some (Some e, st4, newpop) \<Rightarrow> Some (Some e, st4)
              | Some (None, st4, newpop) \<Rightarrow> Some (None, st4\<lparr>pop := newpop\<rparr>))"
    using best2 by (auto simp: tell_def a1 a2 sel)
  have el: "create_new_pop G R pool st3 = breed_loop G R pool st3 [pop' ! (popsize G - 1)] 0"
    if "0 < popsize G"
  proof -
    from that len3 have ne: "pop' \<noteq> []" by (auto simp: st3_def)
    from last_conv_nth[OF ne] len3 have "last pop' = pop' ! (popsize G - 1)"
      by (simp add: st3_def)
    with ne show ?thesis by (simp add: create_new_pop_def st3_def)
  qed
  from m pop2 have m': "mset pop' = mset (pop st)" by simp
  show ?thesis
    apply (rule exI[of _ st1])
    apply (rule exI[of _ st2])
    apply (rule exI[of _ pop'])
    apply (rule exI[of _ pool])
    unfolding st3_def[symmetric]
    apply (intro conjI)
             apply (rule a1)
            apply (rule a2)
           apply (rule s[folded st3_def])
          apply (rule m')
         apply (rule o)
        apply (rule l)
       apply (rule pool_def)
      apply (rule sel)
     apply (rule tl)
    apply (rule impI)
    apply (erule el)
    done
qed

text \<open>
  The engine \<open>trunc_ge\<close>, maximising, in the state after \<open>init\<close>, is told the fitness
  values 1, 5, 2, 3. The population is sorted to the fitness order 1, 2, 3, 5; with
  \<open>trunc = 0.25\<close> and \<open>popsize = 4\<close> the parents are its two middle elements; the new
  population starts with the individual of fitness 5.
\<close>

theorem tell_truncation_witness:
  "interactive (trunc_ge True) = False \<and>
   length (pop sel_state0) = popsize (trunc_ge True) \<and>
   best_ever sel_state0 = Some 0 \<and>
   popsize (trunc_ge True) \<le> length [1, 5, 2, 3 :: real] \<and>
   negative (trunc (trunc_ge True)) = False \<and>
   assign_fitvals [1, 5, 2, 3] [0..<popsize (trunc_ge True)] sel_state0 =
     (None, sel_state\<lparr>best_ever := Some 0\<rparr>) \<and>
   update_best (trunc_ge True) [0..<popsize (trunc_ge True)] (sel_state\<lparr>best_ever := Some 0\<rparr>) =
     (None, sel_state) \<and>
   select_parents (trunc_ge True) sel_state =
     Return ([Some 2, Some 3], sel_state\<lparr>pop := [Some 0, Some 2, Some 3, Some 1]\<rparr>) \<and>
   map (num_fitness sel_state) [Some 0, Some 2, Some 3, Some 1] = [1, 2, 3, 5] \<and>
   tell (trunc_ge True) sel_R sel_state0 [1, 5, 2, 3] = Some (None, sel_state_told) \<and>
   pop sel_state_told ! 0 = Some 1"
proof -
  let ?G = "trunc_ge True"
  have h1: "\<not> interactive ?G" by (simp add: trunc_ge_def)
  have h2: "length (pop sel_state0) = popsize ?G" by (simp add: sel_state0_def trunc_ge_def)
  have h3: "\<forall>x \<in> set (pop sel_state0). \<exists>a. x = Some a \<and> a < length (heap sel_state0)"
    by (simp add: sel_state0_def)
  have h4: "best_ever sel_state0 \<noteq> None" by (simp add: sel_state0_def)
  have h5: "popsize ?G \<le> length [1, 5, 2, 3 :: real]" by (simp add: trunc_ge_def)
  have h6: "\<not> negative (trunc ?G)" by (simp add: trunc_ge_def)
  have v1: "assign_fitvals [1, 5, 2, 3] [0..<popsize ?G] sel_state0 =
              (None, sel_state\<lparr>best_ever := Some 0\<rparr>)"
    by code_simp
  have v2: "update_best ?G [0..<popsize ?G] (sel_state\<lparr>best_ever := Some 0\<rparr>) = (None, sel_state)"
    by code_simp
  have v3: "sort_pop ?G sel_state = (None, sel_state\<lparr>pop := [Some 0, Some 2, Some 3, Some 1]\<rparr>)"
    by code_simp
  have v4: "create_new_pop ?G sel_R [Some 2, Some 3]
              (sel_state\<lparr>pop := [Some 0, Some 2, Some 3, Some 1]\<rparr>) =
            Some (None, sel_state_told\<lparr>pop := [Some 0, Some 2, Some 3, Some 1]\<rparr>,
                  [Some 1, Some 4, Some 5, Some 6])"
    by code_simp
  have v5: "map (num_fitness sel_state) [Some 0, Some 2, Some 3, Some 1] = [1, 2, 3, 5]"
    by (simp add: num_fitness_def sel_state_def)
  from tell_truncation[OF h1 h2 h3 h4 h5 h6, of sel_R] obtain st1 st2 pop' pool where
    a1: "assign_fitvals [1, 5, 2, 3] [0..<popsize ?G] sel_state0 = (None, st1)" and
    a2: "update_best ?G [0..<popsize ?G] st1 = (None, st2)" and
    s: "sort_pop ?G st2 = (None, st2\<lparr>pop := pop'\<rparr>)" and
    p: "pool = map (\<lambda>i. pop' ! i) [nat (math_floor (jsmul (popsize ?G) (trunc ?G)))..<popsize ?G - 1]" and
    sel: "select_parents ?G st2 = Return (pool, st2\<lparr>pop := pop'\<rparr>)" and
    tl: "tell ?G sel_R sel_state0 [1, 5, 2, 3] =
           (case create_new_pop ?G sel_R pool (st2\<lparr>pop := pop'\<rparr>) of
              None \<Rightarrow> None
            | Some (Some e, st4, newpop) \<Rightarrow> Some (Some e, st4)
            | Some (None, st4, newpop) \<Rightarrow> Some (None, st4\<lparr>pop := newpop\<rparr>))"
    by blast
  from a1 v1 have st1: "st1 = sel_state\<lparr>best_ever := Some 0\<rparr>" by simp
  from a2 v2 st1 have st2: "st2 = sel_state" by simp
  from s v3 st2 have "pop (sel_state\<lparr>pop := pop'\<rparr>) =
                      pop (sel_state\<lparr>pop := [Some 0, Some 2, Some 3, Some 1]\<rparr>)" by simp
  then have pop': "pop' = [Some 0, Some 2, Some 3, Some 1]" by simp
  have "[nat (math_floor (jsmul (popsize ?G) (trunc ?G)))..<popsize ?G - 1] = [1, 2]"
    by (simp add: trunc_ge_def jsmul_def math_floor_def round_double_exact upt_conv_Cons)
  with p pop' have pool: "pool = [Some 2, Some 3]" by simp
  from sel st2 pop' pool have r1: "select_parents ?G sel_state =
      Return ([Some 2, Some 3], sel_state\<lparr>pop := [Some 0, Some 2, Some 3, Some 1]\<rparr>)" by simp
  from tl st2 pop' pool v4 have r2: "tell ?G sel_R sel_state0 [1, 5, 2, 3] = Some (None, sel_state_told)"
    by (simp add: sel_state_told_def)
  have r3: "pop sel_state_told ! 0 = Some 1" by (simp add: sel_state_told_def)
  have b: "best_ever sel_state0 = Some 0" by (simp add: sel_state0_def)
  from h1 h2 b h5 h6 v1 v2 r1 v5 r2 r3 show ?thesis by simp
qed

text \<open>
  Claim C4 as stated fails. When minimising, \<open>tell\<close> with the fitness values 1, 5, 2, 3
  sorts the population to the fitness order 5, 3, 2, 1, which is not ascending by
  fitness; when maximising it sorts it to 1, 2, 3, 5, which is not ascending by negated
  fitness.
\<close>

theorem tell_sort_counterexample:
  "interactive (trunc_ge False) = False \<and> maximise (trunc_ge False) = False \<and>
   assign_fitvals [1, 5, 2, 3] [0..<popsize (trunc_ge False)] sel_state0 =
     (None, sel_state\<lparr>best_ever := Some 0\<rparr>) \<and>
   update_best (trunc_ge False) [0..<popsize (trunc_ge False)] (sel_state\<lparr>best_ever := Some 0\<rparr>) =
     (None, sel_state\<lparr>best_ever := Some 0\<rparr>) \<and>
   select_parents (trunc_ge False) (sel_state\<lparr>best_ever := Some 0\<rparr>) =
     Return ([Some 3, Some 2],
             sel_state\<lparr>best_ever := Some 0, pop := [Some 1, Some 3, Some 2, Some 0]\<rparr>) \<and>
   map (num_fitness sel_state) [Some 1, Some 3, Some 2, Some 0] = [5, 3, 2, 1] \<and>
   \<not> sorted (map (num_fitness sel_state) [Some 1, Some 3, Some 2, Some 0]) \<and>
   interactive (trunc_ge True) = False \<and> maximise (trunc_ge True) = True \<and>
   assign_fitvals [1, 5, 2, 3] [0..<popsize (trunc_ge True)] sel_state0 =
     (None, sel_state\<lparr>best_ever := Some 0\<rparr>) \<and>
   update_best (trunc_ge True) [0..<popsize (trunc_ge True)] (sel_state\<lparr>best_ever := Some 0\<rparr>) =
     (None, sel_state) \<and>
   select_parents (trunc_ge True) sel_state =
     Return ([Some 2, Some 3], sel_state\<lparr>pop := [Some 0, Some 2, Some 3, Some 1]\<rparr>) \<and>
   map (num_fitness sel_state) [Some 0, Some 2, Some 3, Some 1] = [1, 2, 3, 5] \<and>
   \<not> sorted (map (\<lambda>x. - num_fitness sel_state x) [Some 0, Some 2, Some 3, Some 1])"
  by code_simp

section \<open>\<open>tell\<close> and the best individual\<close>

text \<open>
  Claim C6, at a failing input. The interactive example engine (it maximises) is
  initialised and told \<open>[1, 5]\<close>: \<open>best_ever\<close> is the second individual, with fitness 5.
  That individual is also the last of the population, so \<open>create_new_pop\<close> puts the same
  object first into the new population. The next call \<open>tell([1, 2])\<close> writes the fitness
  1 into it, and the scan then ends with a \<open>best_ever\<close> of fitness 2: the fitness of
  \<open>best_ever\<close> has gone down from 5 to 2.
\<close>

theorem best_ever_fitness_drops:
  "maximise ex_ge \<and>
   init ex_ge ex_R initial_state = Some (None, ex_S1) \<and>
   tell ex_ge ex_R ex_S1 [1, 5] = Some (None, ex_S2) \<and>
   best_ever ex_S2 = Some 1 \<and> fitness (heap ex_S2 ! 1) = FNum 5 \<and>
   tell ex_ge ex_R ex_S2 [1, 2] = Some (None, ex_S3) \<and>
   best_ever ex_S3 = Some 2 \<and> fitness (heap ex_S3 ! 2) = FNum 2"
  by code_simp

lemma fitval_at_take: "i < n \<Longrightarrow> fitval_at (take n fitvals) i = fitval_at fitvals i"
  by (simp add: fitval_at_def)

lemma assign_fitvals_take:
  "\<forall>i \<in> set is. i < n \<Longrightarrow>
     assign_fitvals (take n fitvals) is st = assign_fitvals fitvals is st"
  by (induction "is" arbitrary: st) (auto simp: fitval_at_take split: option.splits)

text \<open>
  Claim C3, as the code has it. \<open>tell\<close> has no protocol check. \<open>ask\<close> returns the
  population and leaves the state as it is, so \<open>tell\<close> does the same with or without
  an \<open>ask\<close> before it. \<open>tell\<close> reads \<open>fitvals[i]\<close> for \<open>i < popsize\<close> only, so a list that
  is too long gives the result of its first \<open>popsize\<close> values. On a freshly constructed
  engine with a positive \<open>popsize\<close> (before \<open>init\<close>), \<open>tell\<close> throws a \<open>TypeError\<close> and the
  state is unchanged.
\<close>

theorem tell_unchecked:
  "ask st = (pop st, st) \<and>
   tell G R (snd (ask st)) fitvals = tell G R st fitvals \<and>
   tell G R st (take (popsize G) fitvals) = tell G R st fitvals \<and>
   (0 < popsize G \<longrightarrow> tell G R initial_state fitvals = Some (Some TypeError, initial_state))"
proof -
  have "assign_fitvals (take (popsize G) fitvals) [0..<popsize G] st =
        assign_fitvals fitvals [0..<popsize G] st"
    by (rule assign_fitvals_take) simp
  then have a: "tell G R st (take (popsize G) fitvals) = tell G R st fitvals"
    by (simp add: tell_def)
  have b: "tell G R initial_state fitvals = Some (Some TypeError, initial_state)"
    if "0 < popsize G"
  proof -
    from that have "[0..<popsize G] = 0 # [1..<popsize G]" by (simp add: upt_conv_Cons)
    then show ?thesis by (simp add: tell_def pop_at_def initial_state_def)
  qed
  from a b show ?thesis by (simp add: ask_def)
qed

theorem tell_unchecked_witness:
  "0 < popsize ex_ge \<and>
   tell ex_ge ex_R initial_state [1, 5] = Some (Some TypeError, initial_state)"
proof -
  have h: "0 < popsize ex_ge" by (simp add: ex_ge_def)
  from tell_unchecked[of initial_state ex_ge ex_R "[1, 5]"] h show ?thesis by blast
qed

text \<open>
  Claim C3 as stated fails. The example engine has \<open>popsize = 2\<close>. After \<open>init\<close>, with
  no \<open>ask\<close> in between, \<open>tell\<close> is given three fitness values: it returns normally, and
  the population, the cache and \<open>best_ever\<close> have changed.
\<close>

theorem tell_unchecked_counterexample:
  "popsize ex_ge = 2 \<and> length [1, 5, 7 :: real] = 3 \<and>
   init ex_ge ex_R initial_state = Some (None, ex_S1) \<and>
   tell ex_ge ex_R ex_S1 [1, 5, 7] = Some (None, ex_S2) \<and>
   pop ex_S2 \<noteq> pop ex_S1 \<and> cache ex_S2 \<noteq> cache ex_S1 \<and> best_ever ex_S2 \<noteq> best_ever ex_S1"
  by code_simp

section \<open>Novelty\<close>

text \<open>
  The only place where an individual is created and where the cache changes is
  \<open>mapAndTryAddIndToPop\<close>; every other step either draws random numbers, or writes a
  fitness slot, or changes \<open>pop\<close> or \<open>best_ever\<close>. The lemmas below follow the code from
  the single steps up to \<open>init\<close> and \<open>tell\<close>; the two unbounded loops are treated by the
  induction rule of their partial functions, which covers every call that returns.
\<close>

lemma keeps_refl: "keeps st st"
  by (simp add: keeps_def grows_def)

lemma keeps_trans: "keeps a b \<Longrightarrow> keeps b c \<Longrightarrow> keeps a c"
  by (auto simp: keeps_def grows_def)

lemma keeps_same: "heap st' = heap st \<Longrightarrow> cache st' = cache st \<Longrightarrow> keeps st st'"
  by (simp add: keeps_def grows_def novelty_inv_def admitted_def)

lemma keeps_length: "keeps st st' \<Longrightarrow> length (heap st) \<le> length (heap st')"
proof -
  assume "keeps st st'"
  then obtain ys where "admitted st' = admitted st @ ys" by (auto simp: keeps_def grows_def)
  then have "length (admitted st') = length (admitted st @ ys)" by simp
  then show ?thesis by (simp add: admitted_def)
qed

lemma in_heap_keeps: "in_heap st refs \<Longrightarrow> keeps st st' \<Longrightarrow> in_heap st' refs"
  using keeps_length by (fastforce simp: in_heap_def)

lemma only_drawn_refl: "only_drawn st st"
  by (simp add: only_drawn_def)

lemma only_drawn_upd: "only_drawn st (st\<lparr>drawn := n\<rparr>)"
  by (simp add: only_drawn_def)

lemma only_drawn_trans: "only_drawn a b \<Longrightarrow> only_drawn b c \<Longrightarrow> only_drawn a c"
proof -
  assume ab: "only_drawn a b" and bc: "only_drawn b c"
  from bc have "c = b\<lparr>drawn := drawn c\<rparr>" by (simp add: only_drawn_def)
  also from ab have "b = a\<lparr>drawn := drawn b\<rparr>" by (simp add: only_drawn_def)
  finally have "c = a\<lparr>drawn := drawn c\<rparr>" by simp
  then show ?thesis by (simp add: only_drawn_def)
qed

lemma only_drawn_fields:
  assumes "only_drawn st st'"
  shows "heap st' = heap st" "cache st' = cache st" "pop st' = pop st" "best_ever st' = best_ever st"
proof -
  from assms have e: "st' = st\<lparr>drawn := drawn st'\<rparr>" by (simp add: only_drawn_def)
  show "heap st' = heap st" by (subst e) simp
  show "cache st' = cache st" by (subst e) simp
  show "pop st' = pop st" by (subst e) simp
  show "best_ever st' = best_ever st" by (subst e) simp
qed

lemma randrange_store: "randrange R st n = (x, st') \<Longrightarrow> only_drawn st st'"
  by (auto simp: randrange_def mt_int_def only_drawn_def)

lemma random_codons_store: "random_codons G R n ind st = (g, st') \<Longrightarrow> only_drawn st st'"
proof (induction n arbitrary: ind st)
  case 0
  then show ?case by (simp add: only_drawn_refl)
next
  case (Suc n)
  obtain x st1 where r: "randrange R st (maxcodon G) = (x, st1)" by (metis surj_pair)
  with Suc.prems have "random_codons G R n (ind @ [x]) st1 = (g, st')" by simp
  from only_drawn_trans[OF randrange_store[OF r] Suc.IH[OF this]] show ?case .
qed

lemma random_ind_store: "random_ind G R st = (g, st') \<Longrightarrow> only_drawn st st'"
  unfolding random_ind_def by (rule random_codons_store)

lemma mutate_store:
  assumes "mutate G R st g c = (g', st')"
  shows "only_drawn st st'"
proof -
  obtain idx st1 where a: "randrange R st (Num c) = (idx, st1)" by (metis surj_pair)
  obtain v st2 where b: "randrange R st1 (maxcodon G) = (v, st2)" by (metis surj_pair)
  from assms a b have "st' = st2" by (simp add: mutate_def split: jsnum.splits)
  with only_drawn_trans[OF randrange_store[OF a] randrange_store[OF b]] show ?thesis by simp
qed

lemma maybe_mutate_store:
  assumes "maybe_mutate G R st g c = (g', st')"
  shows "only_drawn st st'"
proof -
  obtain u st1 where m: "mt_random R st = (u, st1)" by (metis surj_pair)
  then have s1: "only_drawn st st1" by (auto simp: mt_random_def only_drawn_def)
  show ?thesis
  proof (cases "u < pmut G")
    case True
    with assms m have "mutate G R st1 g c = (g', st')" by (simp add: maybe_mutate_def)
    from only_drawn_trans[OF s1 mutate_store[OF this]] show ?thesis .
  next
    case False
    with assms m have "st' = st1" by (simp add: maybe_mutate_def)
    with s1 show ?thesis by simp
  qed
qed

lemma crossover_store: "crossover R st g0 g1 c0 c1 = (ts, st') \<Longrightarrow> only_drawn st st'"
  by (auto simp: crossover_eq Let_def only_drawn_def)

lemma sampleSize_store: "sampleSize R st xs = (ys, st') \<Longrightarrow> only_drawn st st'"
  by (auto simp: sampleSize_def Let_def only_drawn_def split: if_splits)

lemma mapAndTry_cases:
  assumes "mapAndTryAddIndToPop G g st refs = Some (Return (st', refs'))"
  obtains (same) "st' = st" "refs' = refs"
  | (new) ind where "mapGenomeToIndividual G g = Some (Return (Some ind))"
      "phenotype ind \<notin> cache st"
      "st' = st\<lparr>heap := heap st @ [ind], cache := insert (phenotype ind) (cache st)\<rparr>"
      "refs' = refs @ [Some (length (heap st))]"
proof (cases "mapGenomeToIndividual G g")
  case None
  with assms show ?thesis by (simp add: mapAndTryAddIndToPop_def)
next
  case (Some r)
  show ?thesis
  proof (cases r)
    case (Throw e)
    with Some assms show ?thesis by (simp add: mapAndTryAddIndToPop_def)
  next
    case (Return io)
    show ?thesis
    proof (cases io)
      case None
      with Some Return assms same show ?thesis by (simp add: mapAndTryAddIndToPop_def)
    next
      case (Some ind)
      show ?thesis
      proof (cases "phenotype ind \<in> cache st")
        case True
        with Some Return \<open>mapGenomeToIndividual G g = Some r\<close> assms same show ?thesis
          by (simp add: mapAndTryAddIndToPop_def)
      next
        case False
        with Some Return \<open>mapGenomeToIndividual G g = Some r\<close> assms new[of ind] show ?thesis
          by (simp add: mapAndTryAddIndToPop_def)
      qed
    qed
  qed
qed

lemma mapAndTry_keeps:
  assumes "mapAndTryAddIndToPop G g st refs = Some (Return (st', refs'))"
  shows "keeps st st' \<and> (in_heap st refs \<longrightarrow> in_heap st' refs')"
  using assms
proof (cases rule: mapAndTry_cases)
  case same
  then show ?thesis by (simp add: keeps_refl)
next
  case (new ind)
  have a: "admitted st' = admitted st @ [phenotype ind]"
    using new(3) by (simp add: admitted_def)
  have c: "cache st' = insert (phenotype ind) (cache st)"
    using new(3) by simp
  have g: "grows st st'" unfolding grows_def using a c by auto
  have n: "novelty_inv st'" if "novelty_inv st"
    using that new(2) unfolding novelty_inv_def a c by auto
  have h: "in_heap st' refs'" if "in_heap st refs"
    using that new(3,4) unfolding in_heap_def by (auto simp: less_Suc_eq)
  from g n h show ?thesis by (simp add: keeps_def)
qed

lemma step_ok_refl: "step_ok x x"
  by (simp add: step_ok_def keeps_refl)

lemma step_ok_trans: "step_ok x y \<Longrightarrow> step_ok y z \<Longrightarrow> step_ok x z"
  by (auto simp: step_ok_def intro: keeps_trans)

lemma step_ok_same:
  assumes "only_drawn st st'"
  shows "step_ok (st, refs) (st', refs)"
proof -
  note f = only_drawn_fields[OF assms]
  from f have "keeps st st'" by (intro keeps_same) simp_all
  with f show ?thesis by (simp add: step_ok_def in_heap_def)
qed

lemma step_ok_mapAndTry:
  assumes "mapAndTryAddIndToPop G g st refs = Some (Return (st', refs'))"
  shows "step_ok (st, refs) (st', refs')"
proof -
  from assms have "pop st' = pop st" by (cases rule: mapAndTry_cases) simp_all
  with mapAndTry_keeps[OF assms] show ?thesis by (simp add: step_ok_def)
qed

lemma breed_pair_ok:
  assumes "breed_pair G R i0 i1 st refs tries = Some r" "step_state r = (st', refs', t')"
  shows "step_ok (st, refs) (st', refs')"
proof -
  obtain g0 g1 st2 where c: "crossover R st (genome i0) (genome i1) (used_codons i0) (used_codons i1) = ((g0, g1), st2)"
    by (metis surj_pair)
  obtain g0' st3 where m: "maybe_mutate G R st2 g0 (used_codons i0) = (g0', st3)"
    by (metis surj_pair)
  have k3: "step_ok (st, refs) (st3, refs)"
    using step_ok_same[OF crossover_store[OF c]] step_ok_same[OF maybe_mutate_store[OF m]]
    by (rule step_ok_trans)
  show ?thesis
  proof (cases "mapAndTryAddIndToPop G g0' st3 refs")
    case None
    with assms c m show ?thesis by (simp add: breed_pair_def)
  next
    case (Some x)
    show ?thesis
    proof (cases x)
      case (Throw e)
      with Some assms c m have "st' = st3" "refs' = refs" by (auto simp: breed_pair_def)
      with k3 show ?thesis by simp
    next
      case (Return y)
      obtain st4 refs1 where y: "y = (st4, refs1)" by (metis surj_pair)
      from Some Return y have k4: "step_ok (st, refs) (st4, refs1)"
        using step_ok_trans[OF k3 step_ok_mapAndTry] by simp
      show ?thesis
      proof (cases "length refs1 = popsize G")
        case True
        with Some Return y assms c m have "st' = st4" "refs' = refs1" by (auto simp: breed_pair_def)
        with k4 show ?thesis by simp
      next
        case False
        obtain g1' st5 where m2: "maybe_mutate G R st4 g1 (used_codons i1) = (g1', st5)"
          by (metis surj_pair)
        have k5: "step_ok (st, refs) (st5, refs1)"
          using k4 step_ok_same[OF maybe_mutate_store[OF m2]] by (rule step_ok_trans)
        show ?thesis
        proof (cases "mapAndTryAddIndToPop G g1' st5 refs1")
          case None
          with Some Return y False m2 assms c m show ?thesis by (simp add: breed_pair_def)
        next
          case (Some x2)
          note s2 = Some
          show ?thesis
          proof (cases x2)
            case (Throw e)
            with s2 \<open>mapAndTryAddIndToPop G g0' st3 refs = Some x\<close> Return y False m2 assms c m
            have "st' = st5" "refs' = refs1" by (auto simp: breed_pair_def)
            with k5 show ?thesis by simp
          next
            case (Return y2)
            obtain st6 refs2 where y2: "y2 = (st6, refs2)" by (metis surj_pair)
            from s2 Return y2 have k6: "step_ok (st, refs) (st6, refs2)"
              using step_ok_trans[OF k5 step_ok_mapAndTry] by simp
            from s2 Return y2 \<open>mapAndTryAddIndToPop G g0' st3 refs = Some x\<close> \<open>x = Return y\<close>
              y False m2 assms c m
            have "st' = st6" "refs' = refs2" by (auto simp: breed_pair_def)
            with k6 show ?thesis by simp
          qed
        qed
      qed
    qed
  qed
qed

lemma breed_ok:
  assumes "breed G R parents st refs tries = Some r" "step_state r = (st', refs', t')"
  shows "step_ok (st, refs) (st', refs')"
proof (cases "popsize G * 2 < tries")
  case True
  obtain g st1 where ri: "random_ind G R st = (g, st1)" by (metis surj_pair)
  have k1: "step_ok (st, refs) (st1, refs)" by (rule step_ok_same[OF random_ind_store[OF ri]])
  show ?thesis
  proof (cases "mapAndTryAddIndToPop G g st1 refs")
    case None
    with assms True ri show ?thesis by (simp add: breed_def)
  next
    case (Some x)
    show ?thesis
    proof (cases x)
      case (Throw e)
      with Some assms True ri have "st' = st1" "refs' = refs" by (auto simp: breed_def)
      with k1 show ?thesis by simp
    next
      case (Return y)
      obtain st2 refs2 where y: "y = (st2, refs2)" by (metis surj_pair)
      from Some Return y have k2: "step_ok (st, refs) (st2, refs2)"
        using step_ok_trans[OF k1 step_ok_mapAndTry] by simp
      from Some Return y assms True ri have "st' = st2" "refs' = refs2" by (auto simp: breed_def)
      with k2 show ?thesis by simp
    qed
  qed
next
  case False
  obtain ys st1 where ss: "sampleSize R st parents = (ys, st1)" by (metis surj_pair)
  have k1: "step_ok (st, refs) (st1, refs)" by (rule step_ok_same[OF sampleSize_store[OF ss]])
  show ?thesis
  proof (cases "\<exists>a0 a1. ys = [Some a0, Some a1]")
    case True
    then obtain a0 a1 where ys: "ys = [Some a0, Some a1]" by blast
    with assms False ss
    have "breed_pair G R (heap st1 ! a0) (heap st1 ! a1) st1 refs tries = Some r"
      by (simp add: breed_def)
    from breed_pair_ok[OF this assms(2)] k1 show ?thesis by (blast intro: step_ok_trans)
  next
    case no: False
    with False ss have "breed G R parents st refs tries = Some (Thrown TypeError (st1, refs, tries))"
      by (auto simp: breed_def split: list.splits option.splits)
    with assms have "st' = st1" "refs' = refs" by auto
    with k1 show ?thesis by simp
  qed
qed

lemma breed_loop_ok:
  assumes "breed_loop G R parents st refs tries = Some res"
  shows "step_ok (st, refs) (snd res)"
proof (rule breed_loop.raw_induct[where
      P = "\<lambda>G R parents st refs tries res. step_ok (st, refs) (snd res)", OF _ assms])
  fix loop G R parents st refs tries res
  assume IH: "\<And>G R parents st refs tries res.
                loop G R parents st refs tries = Some res \<Longrightarrow> step_ok (st, refs) (snd res)"
    and body: "(if length refs < popsize G
      then (case breed G R parents st refs tries of
              None \<Rightarrow> None
            | Some (Thrown e (st', newpop', tries')) \<Rightarrow> Some (Some e, st', newpop')
            | Some (Leave (st', newpop', tries')) \<Rightarrow> Some (None, st', newpop')
            | Some (Next (st', newpop', tries')) \<Rightarrow> loop G R parents st' newpop' tries')
      else Some (None, st, refs)) = Some res"
  show "step_ok (st, refs) (snd res)"
  proof (cases "length refs < popsize G")
    case False
    with body have "res = (None, st, refs)" by simp
    then show ?thesis by (simp add: step_ok_refl)
  next
    case True
    show ?thesis
    proof (cases "breed G R parents st refs tries")
      case None
      with body True show ?thesis by simp
    next
      case (Some r)
      obtain st1 refs1 t1 where ss: "step_state r = (st1, refs1, t1)" by (metis surj_pair)
      from breed_ok[OF Some ss] have k: "step_ok (st, refs) (st1, refs1)" .
      show ?thesis
      proof (cases r)
        case (Thrown e x)
        with ss body True Some have "res = (Some e, st1, refs1)" by simp
        with k show ?thesis by simp
      next
        case (Leave x)
        with ss body True Some have "res = (None, st1, refs1)" by simp
        with k show ?thesis by simp
      next
        case (Next x)
        with ss body True Some have "loop G R parents st1 refs1 t1 = Some res" by simp
        from IH[OF this] k show ?thesis by (rule step_ok_trans[rotated])
      qed
    qed
  qed
qed

lemma op_ok_refl: "op_ok st st"
  by (simp add: op_ok_def keeps_refl)

lemma op_ok_trans: "op_ok a b \<Longrightarrow> op_ok b c \<Longrightarrow> op_ok a c"
  by (auto simp: op_ok_def intro: keeps_trans)

lemma op_ok_same_heap:
  "heap st' = heap st \<Longrightarrow> cache st' = cache st \<Longrightarrow> set (pop st') \<subseteq> insert None (set (pop st)) \<Longrightarrow>
     op_ok st st'"
  by (auto simp: op_ok_def in_heap_def intro: keeps_same)

lemma init_loop_ok:
  assumes "init_loop G R st = Some res"
  shows "op_ok st (snd res)"
proof (rule init_loop.raw_induct[where P = "\<lambda>G R st res. op_ok st (snd res)", OF _ assms])
  fix loop G R st res
  assume IH: "\<And>G R st res. loop G R st = Some res \<Longrightarrow> op_ok st (snd res)"
    and body: "(if length (pop st) < popsize G
      then (case random_ind G R st of (g, st1) \<Rightarrow>
              (case mapAndTryAddIndToPop G g st1 (pop st1) of
                 None \<Rightarrow> None
               | Some (Throw e) \<Rightarrow> Some (Some e, st1)
               | Some (Return (st2, pop2)) \<Rightarrow> loop G R (st2\<lparr>pop := pop2\<rparr>)))
      else Some (None, st)) = Some res"
  show "op_ok st (snd res)"
  proof (cases "length (pop st) < popsize G")
    case False
    with body have "res = (None, st)" by simp
    then show ?thesis by (simp add: op_ok_refl)
  next
    case True
    obtain g st1 where ri: "random_ind G R st = (g, st1)" by (metis surj_pair)
    note f = only_drawn_fields[OF random_ind_store[OF ri]]
    have k1: "op_ok st st1" using f by (intro op_ok_same_heap) auto
    show ?thesis
    proof (cases "mapAndTryAddIndToPop G g st1 (pop st1)")
      case None
      with body True ri show ?thesis by simp
    next
      case (Some x)
      show ?thesis
      proof (cases x)
        case (Throw e)
        with Some body True ri have "res = (Some e, st1)" by simp
        with k1 show ?thesis by simp
      next
        case (Return y)
        obtain st2 pop2 where y: "y = (st2, pop2)" by (metis surj_pair)
        from Some Return y have m: "step_ok (st1, pop st1) (st2, pop2)"
          using step_ok_mapAndTry by simp
        then have "op_ok st1 (st2\<lparr>pop := pop2\<rparr>)"
          by (simp add: step_ok_def op_ok_def in_heap_def keeps_def grows_def novelty_inv_def
              admitted_def)
        with k1 have k2: "op_ok st (st2\<lparr>pop := pop2\<rparr>)" by (rule op_ok_trans)
        from Some Return y body True ri have "loop G R (st2\<lparr>pop := pop2\<rparr>) = Some res" by simp
        from op_ok_trans[OF k2 IH[OF this]] show ?thesis .
      qed
    qed
  qed
qed

lemma init_ok:
  assumes "init G R st = Some (e, st')"
  shows "op_ok st st'"
proof (cases "init_loop G R st")
  case None
  with assms show ?thesis by (simp add: init_def)
next
  case (Some res)
  obtain e1 st1 where r: "res = (e1, st1)" by (metis surj_pair)
  from init_loop_ok[OF Some] r have k: "op_ok st st1" by simp
  show ?thesis
  proof (cases e1)
    case None
    with Some r assms have "st' = st1\<lparr>best_ever := pop_at st1 0\<rparr>" by (simp add: init_def)
    then have "op_ok st1 st'" by (intro op_ok_same_heap) auto
    with k show ?thesis by (rule op_ok_trans)
  next
    case (Some a)
    with \<open>init_loop G R st = Some res\<close> r assms have "st' = st1" by (simp add: init_def)
    with k show ?thesis by simp
  qed
qed

lemma set_fitness_ok:
  "op_ok st (st\<lparr>heap := (heap st)[a := (heap st ! a)\<lparr>fitness := v\<rparr>]\<rparr>)"
proof -
  have "map phenotype ((heap st)[a := (heap st ! a)\<lparr>fitness := v\<rparr>]) = map phenotype (heap st)"
  proof (rule nth_equalityI)
    show "length (map phenotype ((heap st)[a := (heap st ! a)\<lparr>fitness := v\<rparr>])) =
          length (map phenotype (heap st))" by simp
  next
    fix i assume "i < length (map phenotype ((heap st)[a := (heap st ! a)\<lparr>fitness := v\<rparr>]))"
    then have i: "i < length (heap st)" by simp
    then show "map phenotype ((heap st)[a := (heap st ! a)\<lparr>fitness := v\<rparr>]) ! i =
               map phenotype (heap st) ! i"
      by (cases "i = a") (simp_all add: nth_list_update)
  qed
  then show ?thesis
    by (simp add: op_ok_def keeps_def grows_def novelty_inv_def admitted_def in_heap_def)
qed

lemma assign_fitvals_ok: "assign_fitvals fitvals is st = (e, st') \<Longrightarrow> op_ok st st'"
proof (induction "is" arbitrary: st)
  case Nil
  then show ?case by (simp add: op_ok_refl)
next
  case (Cons i "is")
  show ?case
  proof (cases "pop_at st i")
    case None
    with Cons.prems show ?thesis by (simp add: op_ok_refl)
  next
    case (Some a)
    let ?st1 = "st\<lparr>heap := (heap st)[a := (heap st ! a)\<lparr>fitness := fitval_at fitvals i\<rparr>]\<rparr>"
    from Some Cons.prems have "assign_fitvals fitvals is ?st1 = (e, st')" by simp
    from op_ok_trans[OF set_fitness_ok Cons.IH[OF this]] show ?thesis .
  qed
qed

lemma update_best_ok: "update_best G is st = (e, st') \<Longrightarrow> op_ok st st'"
proof (induction "is" arbitrary: st)
  case Nil
  then show ?case by (simp add: op_ok_refl)
next
  case (Cons i "is")
  have upd: "op_ok st (st\<lparr>best_ever := b\<rparr>)" for b
    by (intro op_ok_same_heap) auto
  from Cons.prems show ?case
    by (auto simp: op_ok_refl split: option.splits if_splits
        intro: Cons.IH op_ok_trans[OF upd Cons.IH])
qed

lemma select_parents_ok:
  assumes "select_parents G st = Return (parents, st')"
  shows "op_ok st st'"
proof (cases "interactive G")
  case True
  with assms have "st' = st" by (auto simp: select_parents_def split: result.splits)
  then show ?thesis by (simp add: op_ok_refl)
next
  case False
  with assms have "sort_pop G st = (None, st')"
    by (auto simp: select_parents_def split: prod.splits option.splits)
  then have "heap st' = heap st \<and> cache st' = cache st \<and> set (pop st') = set (pop st)"
    by (auto simp: sort_pop_def split: if_splits)
  then show ?thesis by (intro op_ok_same_heap) auto
qed

lemma create_new_pop_ok:
  assumes "create_new_pop G R parents st = Some (e, st', newpop)"
  shows "keeps st st' \<and> pop st' = pop st \<and> (in_heap st (pop st) \<longrightarrow> in_heap st' newpop)"
proof -
  let ?elite = "if pop st = [] then None else last (pop st)"
  from assms have "breed_loop G R parents st [?elite] 0 = Some (e, st', newpop)"
    by (simp add: create_new_pop_def)
  from breed_loop_ok[OF this] have s: "step_ok (st, [?elite]) (st', newpop)" by simp
  have "in_heap st [?elite]" if "in_heap st (pop st)"
    using that by (auto simp: in_heap_def)
  with s show ?thesis by (auto simp: step_ok_def)
qed

lemma tell_ok:
  assumes "tell G R st fitvals = Some (e, st')"
  shows "op_ok st st'"
proof -
  obtain e1 st1 where a: "assign_fitvals fitvals [0..<popsize G] st = (e1, st1)"
    by (metis surj_pair)
  note k1 = assign_fitvals_ok[OF a]
  show ?thesis
  proof (cases e1)
    case (Some err)
    with a assms have "st' = st1" by (auto simp: tell_def)
    with k1 show ?thesis by simp
  next
    case None
    note e1 = None
    obtain e2 st2 where u: "update_best G [0..<popsize G] st1 = (e2, st2)"
      by (metis surj_pair)
    from op_ok_trans[OF k1 update_best_ok[OF u]] have k2: "op_ok st st2" .
    show ?thesis
    proof (cases "e2 \<noteq> None \<or> best_ever st2 = None")
      case True
      with a e1 u assms have "st' = st2" by (auto simp: tell_def split: option.splits)
      with k2 show ?thesis by simp
    next
      case False
      then have e2: "e2 = None" and be: "best_ever st2 \<noteq> None" by auto
      show ?thesis
      proof (cases "select_parents G st2")
        case (Throw err)
        with a e1 u e2 be assms have "st' = st2" by (auto simp: tell_def)
        with k2 show ?thesis by simp
      next
        case (Return y)
        obtain parents st3 where y: "y = (parents, st3)" by (metis surj_pair)
        from Return y have sp: "select_parents G st2 = Return (parents, st3)" by simp
        from op_ok_trans[OF k2 select_parents_ok[OF sp]] have k3: "op_ok st st3" .
        show ?thesis
        proof (cases "create_new_pop G R parents st3")
          case None
          with a e1 u e2 be sp assms show ?thesis by (auto simp: tell_def)
        next
          case (Some res)
          obtain e4 st4 newpop where r: "res = (e4, st4, newpop)" by (metis prod_cases3)
          from Some r have c: "create_new_pop G R parents st3 = Some (e4, st4, newpop)" by simp
          note k4 = create_new_pop_ok[OF c]
          show ?thesis
          proof (cases e4)
            case None
            with a e1 u e2 be sp c assms have s: "st' = st4\<lparr>pop := newpop\<rparr>"
              by (auto simp: tell_def)
            from k4 have "op_ok st3 (st4\<lparr>pop := newpop\<rparr>)"
              by (simp add: op_ok_def in_heap_def keeps_def grows_def novelty_inv_def admitted_def)
            with k3 s show ?thesis by (auto intro: op_ok_trans)
          next
            case (Some err)
            with a e1 u e2 be sp c assms have s: "st' = st4" by (auto simp: tell_def)
            from k4 have "op_ok st3 st4"
              using in_heap_keeps by (auto simp: op_ok_def)
            with k3 s show ?thesis by (auto intro: op_ok_trans)
          qed
        qed
      qed
    qed
  qed
qed

lemma reachable_inv:
  assumes "reachable G R st"
  shows "novelty_inv st \<and> in_heap st (pop st)"
  using assms
proof (induction rule: reachable.induct)
  case constructed
  show ?case by (simp add: novelty_inv_def admitted_def in_heap_def initial_state_def)
next
  case (after_init st e st')
  from init_ok[OF after_init.hyps(2)] after_init.IH show ?case
    by (simp add: op_ok_def keeps_def)
next
  case (after_tell st fitvals e st')
  from tell_ok[OF after_tell.hyps(2)] after_tell.IH show ?case
    by (simp add: op_ok_def keeps_def)
qed

lemma ex_tell1: "tell ex_ge ex_R ex_S1 [1, 5] = Some (None, ex_S2)"
  by code_simp

lemma ex_tell2: "tell ex_ge ex_R ex_S2 [1, 2] = Some (None, ex_S3)"
  by code_simp

lemma ex_S3_reachable: "reachable ex_ge ex_R ex_S3"
  by (rule after_tell[OF after_tell[OF after_init[OF constructed ex_init] ex_tell1] ex_tell2])

text \<open>
  Claim C5. In every state of an engine run: two distinct individuals of the heap
  (the individuals ever pushed into a population, alive or not) have different
  phenotypes; every member of the current population is one of them; the phenotype of
  each is in the cache; a call of \<open>init\<close> or \<open>tell\<close> only adds to the cache and to the
  admitted individuals; and a genome whose phenotype is that of any admitted individual
  is rejected by \<open>mapAndTryAddIndToPop\<close>, which then changes neither the state nor the
  population it is building.
\<close>

theorem novelty_invariant:
  assumes "reachable G R st"
  shows "(\<forall>a b. a < length (heap st) \<and> b < length (heap st) \<and> a \<noteq> b \<longrightarrow>
                phenotype (heap st ! a) \<noteq> phenotype (heap st ! b)) \<and>
         (\<forall>a. Some a \<in> set (pop st) \<longrightarrow> a < length (heap st)) \<and>
         phenotype ` set (heap st) \<subseteq> cache st \<and>
         (\<forall>fitvals e st'. tell G R st fitvals = Some (e, st') \<longrightarrow>
            cache st \<subseteq> cache st' \<and>
            (\<exists>ys. map phenotype (heap st') = map phenotype (heap st) @ ys)) \<and>
         (\<forall>e st'. init G R st = Some (e, st') \<longrightarrow>
            cache st \<subseteq> cache st' \<and>
            (\<exists>ys. map phenotype (heap st') = map phenotype (heap st) @ ys)) \<and>
         (\<forall>g refs ind a. mapGenomeToIndividual G g = Some (Return (Some ind)) \<and>
            a < length (heap st) \<and> phenotype ind = phenotype (heap st ! a) \<longrightarrow>
            mapAndTryAddIndToPop G g st refs = Some (Return (st, refs)))"
proof -
  from reachable_inv[OF assms]
  have d: "distinct (map phenotype (heap st))"
    and c: "phenotype ` set (heap st) \<subseteq> cache st"
    and h: "in_heap st (pop st)"
    by (simp_all add: novelty_inv_def admitted_def)
  have 1: "\<forall>a b. a < length (heap st) \<and> b < length (heap st) \<and> a \<noteq> b \<longrightarrow>
                phenotype (heap st ! a) \<noteq> phenotype (heap st ! b)"
  proof (intro allI impI)
    fix a b assume ab: "a < length (heap st) \<and> b < length (heap st) \<and> a \<noteq> b"
    with d have "map phenotype (heap st) ! a \<noteq> map phenotype (heap st) ! b"
      by (simp add: distinct_conv_nth)
    with ab show "phenotype (heap st ! a) \<noteq> phenotype (heap st ! b)" by simp
  qed
  have 2: "\<forall>a. Some a \<in> set (pop st) \<longrightarrow> a < length (heap st)"
    using h by (simp add: in_heap_def)
  have 4: "\<forall>fitvals e st'. tell G R st fitvals = Some (e, st') \<longrightarrow>
            cache st \<subseteq> cache st' \<and>
            (\<exists>ys. map phenotype (heap st') = map phenotype (heap st) @ ys)"
  proof (intro allI impI)
    fix fitvals e st' assume "tell G R st fitvals = Some (e, st')"
    from tell_ok[OF this]
    show "cache st \<subseteq> cache st' \<and> (\<exists>ys. map phenotype (heap st') = map phenotype (heap st) @ ys)"
      by (simp add: op_ok_def keeps_def grows_def admitted_def)
  qed
  have 5: "\<forall>e st'. init G R st = Some (e, st') \<longrightarrow>
            cache st \<subseteq> cache st' \<and>
            (\<exists>ys. map phenotype (heap st') = map phenotype (heap st) @ ys)"
  proof (intro allI impI)
    fix e st' assume "init G R st = Some (e, st')"
    from init_ok[OF this]
    show "cache st \<subseteq> cache st' \<and> (\<exists>ys. map phenotype (heap st') = map phenotype (heap st) @ ys)"
      by (simp add: op_ok_def keeps_def grows_def admitted_def)
  qed
  have 6: "\<forall>g refs ind a. mapGenomeToIndividual G g = Some (Return (Some ind)) \<and>
            a < length (heap st) \<and> phenotype ind = phenotype (heap st ! a) \<longrightarrow>
            mapAndTryAddIndToPop G g st refs = Some (Return (st, refs))"
  proof (intro allI impI)
    fix g refs ind a
    assume a: "mapGenomeToIndividual G g = Some (Return (Some ind)) \<and>
            a < length (heap st) \<and> phenotype ind = phenotype (heap st ! a)"
    then have "phenotype ind \<in> phenotype ` set (heap st)" by simp
    with c have "phenotype ind \<in> cache st" by blast
    with a show "mapAndTryAddIndToPop G g st refs = Some (Return (st, refs))"
      by (simp add: mapAndTryAddIndToPop_def)
  qed
  show ?thesis
    apply (intro conjI)
         apply (rule 1)
        apply (rule 2)
       apply (rule c)
      apply (rule 4)
     apply (rule 5)
    apply (rule 6)
    done
qed

text \<open>
  \<open>ex_S3\<close> is the state after \<open>init\<close> and two calls of \<open>tell\<close>. Its population holds the
  individuals 2 and 3. The genome \<open>[2, 0, 0, 0]\<close> has the phenotype \<open>00\<close> of
  individual 0, which left the population in the first \<open>tell\<close>: it is rejected.
\<close>

theorem novelty_invariant_witness:
  "reachable ex_ge ex_R ex_S3 \<and> pop ex_S3 = [Some 2, Some 3] \<and>
   phenotype (heap ex_S3 ! 0) = ''00'' \<and>
   mapGenomeToIndividual ex_ge [Num 2, Num 0, Num 0, Num 0] =
     Some (Return (Some \<lparr>genome = [Num 2, Num 0, Num 0, Num 0], phenotype = ''00'',
                          used_codons = 2, fitness = FNull\<rparr>)) \<and>
   mapAndTryAddIndToPop ex_ge [Num 2, Num 0, Num 0, Num 0] ex_S3 [Some 3] =
     Some (Return (ex_S3, [Some 3]))"
proof -
  let ?g = "[Num 2, Num 0, Num 0, Num 0]"
  let ?ind = "\<lparr>genome = ?g, phenotype = ''00'', used_codons = 2, fitness = FNull\<rparr>"
  have m: "mapGenomeToIndividual ex_ge ?g = Some (Return (Some ?ind))" by code_simp
  have a: "0 < length (heap ex_S3)" by (simp add: ex_S3_def)
  have p: "phenotype ?ind = phenotype (heap ex_S3 ! 0)" by (simp add: ex_S3_def)
  from novelty_invariant[OF ex_S3_reachable]
  have "\<forall>g refs ind a. mapGenomeToIndividual ex_ge g = Some (Return (Some ind)) \<and>
            a < length (heap ex_S3) \<and> phenotype ind = phenotype (heap ex_S3 ! a) \<longrightarrow>
            mapAndTryAddIndToPop ex_ge g ex_S3 refs = Some (Return (ex_S3, refs))"
    by blast
  with m a p have "mapAndTryAddIndToPop ex_ge ?g ex_S3 [Some 3] = Some (Return (ex_S3, [Some 3]))"
    by blast
  moreover have "pop ex_S3 = [Some 2, Some 3]" "phenotype (heap ex_S3 ! 0) = ''00''"
    by (simp_all add: ex_S3_def)
  ultimately show ?thesis using ex_S3_reachable m by blast
qed

end
